theory Spec2Isabelle
  imports Main "HOL-Library.AList" "HOL-Library.Char_ord" "HOL-Library.List_Lexorder"
    "HOL-Library.Multiset"
begin

section \<open>SkyWalking trace collector: \<^verbatim>\<open>T-Dataset/trace_collector.py\<close>\<close>

subsection \<open>Python dictionaries\<close>

text \<open>
  A Python \<^verbatim>\<open>dict\<close> keeps its keys in insertion order, and assigning to a key that is
  already there keeps the key's position. An association list with distinct keys models
  it: \<^const>\<open>AList.update\<close> overwrites in place or appends at the end.
\<close>

type_synonym ('k, 'v) dict = "('k \<times> 'v) list"

definition dict_contains :: "('k, 'v) dict \<Rightarrow> 'k \<Rightarrow> bool" where
  \<comment> \<open>\<^verbatim>\<open>k in d\<close>\<close>
  "dict_contains d k = (map_of d k \<noteq> None)"

definition dict_set :: "('k, 'v) dict \<Rightarrow> 'k \<Rightarrow> 'v \<Rightarrow> ('k, 'v) dict" where
  \<comment> \<open>\<^verbatim>\<open>d[k] = v\<close>\<close>
  "dict_set d k v = AList.update k v d"

definition dict_setdefault :: "('k, 'v) dict \<Rightarrow> 'k \<Rightarrow> 'v \<Rightarrow> ('k, 'v) dict" where
  \<comment> \<open>\<^verbatim>\<open>d.setdefault(k, v)\<close>, for its effect on \<^verbatim>\<open>d\<close>\<close>
  "dict_setdefault d k v = (if dict_contains d k then d else d @ [(k, v)])"

definition dict_get_or :: "('k, 'v) dict \<Rightarrow> 'k \<Rightarrow> 'v \<Rightarrow> 'v" where
  \<comment> \<open>\<^verbatim>\<open>d.get(k, default)\<close>\<close>
  "dict_get_or d k dflt = (case map_of d k of None \<Rightarrow> dflt | Some v \<Rightarrow> v)"

subsection \<open>Formatting integers\<close>

text \<open>
  An f-string renders an \<^verbatim>\<open>int\<close> in decimal, with a leading minus sign when negative,
  and \<^verbatim>\<open>None\<close> as the text \<^verbatim>\<open>None\<close>.
\<close>

fun str_nat :: "nat \<Rightarrow> string" where
  "str_nat n =
     (if n < 10 then [''0123456789'' ! n]
      else str_nat (n div 10) @ [''0123456789'' ! (n mod 10)])"

declare str_nat.simps [simp del]

definition str_int :: "int \<Rightarrow> string" where
  "str_int i = (if i < 0 then CHR ''-'' # str_nat (nat (- i)) else str_nat (nat i))"

definition fmt_str :: "string option \<Rightarrow> string" where
  "fmt_str s = (case s of None \<Rightarrow> ''None'' | Some t \<Rightarrow> t)"

definition fmt_int :: "int option \<Rightarrow> string" where
  "fmt_int i = (case i of None \<Rightarrow> ''None'' | Some k \<Rightarrow> str_int k)"

subsection \<open>Data containers\<close>

text \<open>
  The records the backend returns are JSON objects read with \<^verbatim>\<open>.get\<close>; a field of type
  \<open>'a option\<close> is \<open>None\<close> when the key is missing or \<^verbatim>\<open>null\<close>. The fields are the ones
  the two GraphQL documents of the collector ask for. The two times of a span are read
  with \<^verbatim>\<open>.get(key, 0)\<close>, which gives \<open>0\<close> for a missing key and \<^verbatim>\<open>None\<close> for a \<^verbatim>\<open>null\<close>
  value, so for them the two cases are kept apart.
\<close>

datatype 'a json_member = Missing | Null | Present 'a

record key_value =
  kv_key :: string
  kv_value :: "string option"

record log_entry =
  log_time :: int
  log_data :: "key_value list"

record span_ref =
  ref_trace_id :: "string option"
  ref_parent_segment_id :: "string option"
  ref_parent_span_id :: "int option"
  ref_type :: "string option"

record raw_span =
  traceId :: "string option"
  segmentId :: "string option"
  spanId :: "int option"
  parentSpanId :: "int option"
  serviceCode :: "string option"
  serviceInstanceName :: "string option"
  startTime :: "int json_member"
  endTime :: "int json_member"
  endpointName :: "string option"
  spanType :: "string option"
  peer :: "string option"
  component :: "string option"
  isError :: "bool option"
  layer :: "string option"
  tags :: "key_value list"
  logs :: "log_entry list"
  refs :: "span_ref list"

text \<open>
  \<^verbatim>\<open>_build_span_records\<close> writes one more key, \<^verbatim>\<open>_node_id\<close>, into the span dictionaries
  it is given. A \<open>tagged_span\<close> is such a dictionary: the backend's fields and the value
  of the key \<^verbatim>\<open>_node_id\<close> (\<open>None\<close> while the key is absent).
\<close>

record tagged_span =
  raw :: raw_span
  node_id_key :: "string option"

text \<open>
  \<^verbatim>\<open>SpanRecord\<close>. The dataclass declares \<^verbatim>\<open>start_ms: int\<close> and \<^verbatim>\<open>end_ms: int\<close> and checks
  nothing when a record is made, so a record can hold \<^verbatim>\<open>None\<close> there. The type \<open>'t\<close> of
  the two times is \<open>int\<close> for a record as declared and \<open>int option\<close> for a record as
  \<^verbatim>\<open>_build_span_records\<close> makes it.
\<close>

record 't span_record =
  node_id :: string
  trace_id :: "string option"
  segment_id :: "string option"
  span_id :: "int option"
  parent_span_id :: "int option"
  parent_node_id :: "string option"
  service_code :: "string option"
  service_instance :: "string option"
  start_ms :: 't
  end_ms :: 't
  endpoint_name :: "string option"
  span_type :: "string option"
  rec_peer :: "string option"
  rec_component :: "string option"
  is_error :: bool
  rec_layer :: "string option"
  rec_tags :: "key_value list"
  rec_logs :: "log_entry list"
  rec_refs :: "span_ref list"
  children_ids :: "string list"
  depth :: int

record log_out =
  time_utc :: string
  time_ms :: int
  data :: "(string, string option) dict"

record span_out =
  o_node_id :: string
  o_trace_id :: "string option"
  o_segment_id :: "string option"
  o_span_id :: "int option"
  o_parent_span_id :: "int option"
  o_parent_node_id :: "string option"
  o_depth :: int
  o_children_node_ids :: "string list"
  o_service_code :: "string option"
  o_service_instance :: "string option"
  o_start_time_utc :: string
  o_end_time_utc :: string
  o_start_timestamp_ms :: int
  o_end_timestamp_ms :: int
  o_duration_ms :: int
  o_endpoint_name :: "string option"
  o_type :: "string option"
  o_peer :: "string option"
  o_component :: "string option"
  o_layer :: "string option"
  o_is_error :: bool
  o_tags :: "key_value list"
  o_tags_map :: "(string, string option) dict"
  o_logs :: "log_out list"
  o_refs :: "span_ref list"

definition kv_dict :: "key_value list \<Rightarrow> (string, string option) dict" where
  \<comment> \<open>\<^verbatim>\<open>{item["key"]: item.get("value") for item in items}\<close>\<close>
  "kv_dict items = fold (\<lambda>item d. dict_set d (kv_key item) (kv_value item)) items []"

text \<open>
  \<^verbatim>\<open>SpanRecord.to_dict\<close> on a record as declared. The rendering of a timestamp as an
  ISO-8601 string (\<^verbatim>\<open>utc_iso\<close>, floating point and the calendar) is the parameter \<open>utc_iso\<close>.
\<close>

definition to_dict :: "(int \<Rightarrow> string) \<Rightarrow> int span_record \<Rightarrow> span_out" where
  "to_dict utc_iso self =
     (let duration = max 0 (end_ms self - start_ms self);
          tags_map = kv_dict (rec_tags self);
          log_records =
            map (\<lambda>entry. \<lparr>time_utc = utc_iso (log_time entry), time_ms = log_time entry,
                          data = kv_dict (log_data entry)\<rparr>) (rec_logs self)
      in \<lparr>o_node_id = node_id self,
          o_trace_id = trace_id self,
          o_segment_id = segment_id self,
          o_span_id = span_id self,
          o_parent_span_id = parent_span_id self,
          o_parent_node_id = parent_node_id self,
          o_depth = depth self,
          o_children_node_ids = children_ids self,
          o_service_code = service_code self,
          o_service_instance = service_instance self,
          o_start_time_utc = utc_iso (start_ms self),
          o_end_time_utc = utc_iso (end_ms self),
          o_start_timestamp_ms = start_ms self,
          o_end_timestamp_ms = end_ms self,
          o_duration_ms = duration,
          o_endpoint_name = endpoint_name self,
          o_type = span_type self,
          o_peer = rec_peer self,
          o_component = rec_component self,
          o_layer = rec_layer self,
          o_is_error = is_error self,
          o_tags = rec_tags self,
          o_tags_map = tags_map,
          o_logs = log_records,
          o_refs = rec_refs self\<rparr>)"

text \<open>
  \<^verbatim>\<open>SpanRecord.to_dict\<close> on a record as \<^verbatim>\<open>_build_span_records\<close> makes it. The first statement,
  \<^verbatim>\<open>duration = max(0, self.end_ms - self.start_ms)\<close>, raises \<^verbatim>\<open>TypeError\<close> when one of the
  two times is \<^verbatim>\<open>None\<close>; otherwise the record is one as declared.
\<close>

datatype py_error = TypeError

definition typed :: "int option span_record \<Rightarrow> int span_record option" where
  "typed self =
     (case (start_ms self, end_ms self) of
        (Some s, Some e) \<Rightarrow>
          Some \<lparr>node_id = node_id self,
                trace_id = trace_id self,
                segment_id = segment_id self,
                span_id = span_id self,
                parent_span_id = parent_span_id self,
                parent_node_id = parent_node_id self,
                service_code = service_code self,
                service_instance = service_instance self,
                start_ms = s,
                end_ms = e,
                endpoint_name = endpoint_name self,
                span_type = span_type self,
                rec_peer = rec_peer self,
                rec_component = rec_component self,
                is_error = is_error self,
                rec_layer = rec_layer self,
                rec_tags = rec_tags self,
                rec_logs = rec_logs self,
                rec_refs = rec_refs self,
                children_ids = children_ids self,
                depth = depth self\<rparr>
      | _ \<Rightarrow> None)"

definition to_dict_dyn :: "(int \<Rightarrow> string) \<Rightarrow> int option span_record \<Rightarrow> py_error + span_out" where
  "to_dict_dyn utc_iso self =
     (case typed self of None \<Rightarrow> Inl TypeError | Some r \<Rightarrow> Inr (to_dict utc_iso r))"

text \<open>\<^verbatim>\<open>[rec.to_dict() for rec in span_records]\<close>: the first exception ends the comprehension.\<close>

fun to_dict_all :: "(int \<Rightarrow> string) \<Rightarrow> int option span_record list \<Rightarrow> py_error + span_out list" where
  "to_dict_all utc_iso [] = Inr []"
| "to_dict_all utc_iso (r # rest) =
     (case to_dict_dyn utc_iso r of
        Inl exc \<Rightarrow> Inl exc
      | Inr d \<Rightarrow>
          (case to_dict_all utc_iso rest of Inl exc \<Rightarrow> Inl exc | Inr ds \<Rightarrow> Inr (d # ds)))"

subsection \<open>Span processing: \<^verbatim>\<open>_build_span_records\<close>\<close>

definition make_node_id :: "string option \<Rightarrow> int option \<Rightarrow> string" where
  \<comment> \<open>\<^verbatim>\<open>f"{segment_id}:{span_id}"\<close>\<close>
  "make_node_id seg sid = fmt_str seg @ '':'' @ fmt_int sid"

definition truthy :: "string option \<Rightarrow> bool" where
  \<comment> \<open>the truth value of an optional string: neither \<^verbatim>\<open>None\<close> nor empty\<close>
  "truthy s = (case s of None \<Rightarrow> False | Some t \<Rightarrow> t \<noteq> [])"

text \<open>Stage 1, the loop body: normalise one span. It writes the key \<^verbatim>\<open>_node_id\<close>.\<close>

definition normalise_span ::
  "tagged_span \<Rightarrow> (string, tagged_span) dict \<times> (string, string list) dict \<Rightarrow>
   tagged_span \<times> (string, tagged_span) dict \<times> (string, string list) dict" where
  "normalise_span span st =
     (case st of (nodes, children) \<Rightarrow>
        let segment_id = segmentId (raw span); span_id = spanId (raw span)
        in if segment_id = None \<or> span_id = None then (span, nodes, children)
           else let node_id = make_node_id segment_id span_id;
                    span' = span\<lparr>node_id_key := Some node_id\<rparr>
                in (span', dict_set nodes node_id span', dict_setdefault children node_id []))"

fun normalise ::
  "tagged_span list \<Rightarrow> (string, tagged_span) dict \<times> (string, string list) dict \<Rightarrow>
   tagged_span list \<times> (string, tagged_span) dict \<times> (string, string list) dict" where
  "normalise [] st = ([], st)"
| "normalise (span # rest) st =
     (case normalise_span span st of (span', st') \<Rightarrow>
        (case normalise rest st' of (rest', st'') \<Rightarrow> (span' # rest', st'')))"

text \<open>
  Stage 2, the parent of one span: the value of \<^verbatim>\<open>parent_node\<close> in the loop body.
  A missing \<^verbatim>\<open>parentSpanId\<close> reads as \<open>-1\<close> and a \<^verbatim>\<open>null\<close> one is no \<^verbatim>\<open>int\<close>: both
  take the second branch, as \<open>None\<close> does here.
\<close>

definition resolve_parent :: "raw_span \<Rightarrow> string option" where
  "resolve_parent span =
     (let parent_span_id = parentSpanId span; segment_id = segmentId span
      in if parent_span_id \<noteq> None \<and> the parent_span_id \<ge> 0
         then Some (make_node_id segment_id parent_span_id)
         else (case refs span of
                 [] \<Rightarrow> None
               | ref # _ \<Rightarrow>
                   let parent_seg = ref_parent_segment_id ref;
                       parent_span = ref_parent_span_id ref
                   in if parent_seg \<noteq> None \<and> parent_span \<noteq> None
                      then Some (make_node_id parent_seg parent_span) else None))"

definition dict_append :: "('k, 'v list) dict \<Rightarrow> 'k \<Rightarrow> 'v \<Rightarrow> ('k, 'v list) dict" where
  \<comment> \<open>\<^verbatim>\<open>d[k].append(v)\<close>, used where \<^verbatim>\<open>k in d\<close> has been tested\<close>
  "dict_append d k v = dict_set d k (dict_get_or d k [] @ [v])"

text \<open>Stage 2, the loop body: record the parent and the child link of one span.\<close>

definition link_span ::
  "tagged_span \<Rightarrow> (string, string option) dict \<times> (string, string list) dict \<Rightarrow>
   (string, string option) dict \<times> (string, string list) dict" where
  "link_span span st =
     (case st of (parents, children) \<Rightarrow>
        if \<not> truthy (node_id_key span) then (parents, children)
        else let node_id = the (node_id_key span);
                 parent_node = resolve_parent (raw span);
                 parents' = dict_set parents node_id parent_node
             in if truthy parent_node \<and> dict_contains children (the parent_node)
                then (parents', dict_append children (the parent_node) node_id)
                else (parents', children))"

definition find_roots ::
  "(string, string option) dict \<Rightarrow> (string, tagged_span) dict \<Rightarrow> string list" where
  \<comment> \<open>\<^verbatim>\<open>[node_id for node_id, parent in parents.items() if parent not in nodes]\<close>\<close>
  "find_roots parents nodes =
     map fst (filter (\<lambda>(node_id, parent).
        case parent of None \<Rightarrow> True | Some p \<Rightarrow> \<not> dict_contains nodes p) parents)"

text \<open>
  Stage 3, the breadth-first loop. \<open>bfs_step\<close> is the body of \<^verbatim>\<open>while queue:\<close>; the
  source has no visited set, so the loop may run forever, and \<open>bfs_loop\<close> is \<open>None\<close>
  then.
\<close>

definition bfs_step ::
  "(string, string list) dict \<Rightarrow> (string \<times> int) list \<times> (string, int) dict \<Rightarrow>
   (string \<times> int) list \<times> (string, int) dict" where
  "bfs_step children st =
     (case st of
        ([], depths) \<Rightarrow> ([], depths)
      | (item # queue, depths) \<Rightarrow>
          let current = fst item; depth = snd item
          in (queue @ map (\<lambda>child. (child, depth + 1)) (dict_get_or children current []),
              dict_set depths current depth))"

partial_function (option) bfs_loop ::
  "(string, string list) dict \<Rightarrow> (string \<times> int) list \<times> (string, int) dict \<Rightarrow>
   (string, int) dict option" where
  "bfs_loop children st =
     (if fst st = [] then Some (snd st) else bfs_loop children (bfs_step children st))"

declare bfs_loop.simps [code]

text \<open>
  Stage 4, the loop body: the record of one span, if the span was kept. A time that is
  \<^verbatim>\<open>null\<close> in the span stays \<^verbatim>\<open>None\<close> in the record.
\<close>

definition make_record ::
  "(string, string option) dict \<Rightarrow> (string, string list) dict \<Rightarrow> (string, int) dict \<Rightarrow>
   tagged_span \<Rightarrow> int option span_record option" where
  "make_record parents children depths span =
     (if \<not> truthy (node_id_key span) then None
      else let node_id = the (node_id_key span); sp = raw span
           in Some \<lparr>node_id = node_id,
                    trace_id = traceId sp,
                    segment_id = segmentId sp,
                    span_id = spanId sp,
                    parent_span_id = parentSpanId sp,
                    parent_node_id = dict_get_or parents node_id None,
                    service_code = serviceCode sp,
                    service_instance = serviceInstanceName sp,
                    start_ms = (case startTime sp of
                                  Missing \<Rightarrow> Some 0 | Null \<Rightarrow> None | Present t \<Rightarrow> Some t),
                    end_ms = (case endTime sp of
                                Missing \<Rightarrow> Some 0 | Null \<Rightarrow> None | Present t \<Rightarrow> Some t),
                    endpoint_name = endpointName sp,
                    span_type = spanType sp,
                    rec_peer = peer sp,
                    rec_component = component sp,
                    is_error = (case isError sp of None \<Rightarrow> False | Some b \<Rightarrow> b),
                    rec_layer = layer sp,
                    rec_tags = tags sp,
                    rec_logs = logs sp,
                    rec_refs = refs sp,
                    children_ids = dict_get_or children node_id [],
                    depth = dict_get_or depths node_id 0\<rparr>)"

text \<open>
  The three dictionaries after stages 1 and 2, with the span dictionaries as stage 1
  leaves them.
\<close>

definition build_maps ::
  "raw_span list \<Rightarrow>
   tagged_span list \<times> (string, tagged_span) dict \<times> (string, string option) dict \<times>
   (string, string list) dict" where
  "build_maps spans =
     (case normalise (map (\<lambda>sp. \<lparr>raw = sp, node_id_key = None\<rparr>) spans) ([], []) of
        (spans1, nodes, children0) \<Rightarrow>
          (case fold link_span spans1 ([], children0) of
             (parents, children) \<Rightarrow> (spans1, nodes, parents, children)))"

text \<open>
  \<^verbatim>\<open>_build_span_records\<close>. The result is \<open>None\<close> when the breadth-first loop does not
  end; otherwise it is the returned pair (records, roots) together with the span
  dictionaries of the caller as the call leaves them.
\<close>

definition build_span_records ::
  "raw_span list \<Rightarrow>
   ((int option span_record list \<times> string list) \<times> tagged_span list) option" where
  "build_span_records spans =
     (case build_maps spans of
        (spans1, nodes, parents, children) \<Rightarrow>
          let roots = find_roots parents nodes;
              queue = map (\<lambda>node_id. (node_id, 0)) roots
          in (case bfs_loop children (queue, []) of
                None \<Rightarrow> None
              | Some depths \<Rightarrow>
                  Some ((List.map_filter (make_record parents children depths) spans1, roots),
                        spans1)))"

subsection \<open>\<^verbatim>\<open>_build_span_records\<close> on the heap\<close>

text \<open>
  The span dictionaries a caller passes, the lists under their keys \<^verbatim>\<open>tags\<close>, \<^verbatim>\<open>logs\<close> and
  \<^verbatim>\<open>refs\<close>, and the dictionaries in those lists are objects: the caller holds references
  to them and sees what the call writes. In this second reading of the function an
  object is named by its address, and a heap gives the object at each address.

  A span dictionary on the heap has the scalar entries of a raw span; under \<^verbatim>\<open>tags\<close>,
  \<^verbatim>\<open>logs\<close> and \<^verbatim>\<open>refs\<close> it has the address of a list object (\<open>None\<close> when the key is
  missing or \<^verbatim>\<open>null\<close>), and \<open>d_node_id\<close> is the value of the key \<^verbatim>\<open>_node_id\<close>.
\<close>

type_synonym addr = nat

record span_dict =
  d_traceId :: "string option"
  d_segmentId :: "string option"
  d_spanId :: "int option"
  d_parentSpanId :: "int option"
  d_serviceCode :: "string option"
  d_serviceInstanceName :: "string option"
  d_startTime :: "int json_member"
  d_endTime :: "int json_member"
  d_endpointName :: "string option"
  d_spanType :: "string option"
  d_peer :: "string option"
  d_component :: "string option"
  d_isError :: "bool option"
  d_layer :: "string option"
  d_tags :: "addr option"
  d_logs :: "addr option"
  d_refs :: "addr option"
  d_node_id :: "string option"

text \<open>
  A \<^verbatim>\<open>SpanRecord\<close> object: its fields \<^verbatim>\<open>tags\<close>, \<^verbatim>\<open>logs\<close> and \<^verbatim>\<open>refs\<close> are addresses of list
  objects. The list of children holds strings, which are values.
\<close>

record record_obj =
  ro_node_id :: string
  ro_trace_id :: "string option"
  ro_segment_id :: "string option"
  ro_span_id :: "int option"
  ro_parent_span_id :: "int option"
  ro_parent_node_id :: "string option"
  ro_service_code :: "string option"
  ro_service_instance :: "string option"
  ro_start_ms :: "int option"
  ro_end_ms :: "int option"
  ro_endpoint_name :: "string option"
  ro_span_type :: "string option"
  ro_peer :: "string option"
  ro_component :: "string option"
  ro_is_error :: bool
  ro_layer :: "string option"
  ro_tags :: addr
  ro_logs :: addr
  ro_refs :: addr
  ro_children_ids :: "string list"
  ro_depth :: int

text \<open>
  The heap: the span dictionary, the list (of addresses of dictionaries), the tag
  dictionary, the log dictionary and the reference dictionary at each address, and the
  first address not yet in use.
\<close>

record heap =
  span_at :: "addr \<Rightarrow> span_dict"
  list_at :: "addr \<Rightarrow> addr list"
  tag_at :: "addr \<Rightarrow> key_value"
  log_at :: "addr \<Rightarrow> log_entry"
  ref_at :: "addr \<Rightarrow> span_ref"
  next_free :: addr

text \<open>
  Reading: \<open>items\<close> is \<^verbatim>\<open>span.get(key) or []\<close>, the elements of the list a key refers to;
  \<open>load\<close> is the span dictionary at an address read through all its references, as the
  value the first reading of the function works on.
\<close>

definition items :: "heap \<Rightarrow> addr option \<Rightarrow> addr list" where
  \<comment> \<open>\<^verbatim>\<open>span.get(key) or []\<close>\<close>
  "items h l = (case l of None \<Rightarrow> [] | Some a \<Rightarrow> list_at h a)"

definition load :: "heap \<Rightarrow> addr \<Rightarrow> tagged_span" where
  "load h a =
     (let d = span_at h a
      in \<lparr>raw = \<lparr>traceId = d_traceId d, segmentId = d_segmentId d, spanId = d_spanId d,
                 parentSpanId = d_parentSpanId d, serviceCode = d_serviceCode d,
                 serviceInstanceName = d_serviceInstanceName d, startTime = d_startTime d,
                 endTime = d_endTime d, endpointName = d_endpointName d,
                 spanType = d_spanType d, peer = d_peer d, component = d_component d,
                 isError = d_isError d, layer = d_layer d,
                 tags = map (tag_at h) (items h (d_tags d)),
                 logs = map (log_at h) (items h (d_logs d)),
                 refs = map (ref_at h) (items h (d_refs d))\<rparr>,
          node_id_key = d_node_id d\<rparr>)"

definition new_list :: "addr list \<Rightarrow> heap \<Rightarrow> addr \<times> heap" where
  \<comment> \<open>\<^verbatim>\<open>list(xs)\<close>: a new list object with the elements of \<^verbatim>\<open>xs\<close>\<close>
  "new_list xs h =
     (next_free h, h\<lparr>list_at := (list_at h)(next_free h := xs), next_free := Suc (next_free h)\<rparr>)"

text \<open>
  Stage 1, the loop body: \<^verbatim>\<open>span["_node_id"] = node_id\<close> writes into the dictionary at the
  address, and \<^verbatim>\<open>nodes[node_id] = span\<close> stores the reference.
\<close>

definition normalise_span_h ::
  "addr \<Rightarrow> heap \<times> (string, addr) dict \<times> (string, string list) dict \<Rightarrow>
   heap \<times> (string, addr) dict \<times> (string, string list) dict" where
  "normalise_span_h span st =
     (case st of (h, nodes, children) \<Rightarrow>
        let segment_id = d_segmentId (span_at h span); span_id = d_spanId (span_at h span)
        in if segment_id = None \<or> span_id = None then (h, nodes, children)
           else let node_id = make_node_id segment_id span_id;
                    h' = h\<lparr>span_at := (span_at h)
                           (span := (span_at h span)\<lparr>d_node_id := Some node_id\<rparr>)\<rparr>
                in (h', dict_set nodes node_id span, dict_setdefault children node_id []))"

definition find_roots_h ::
  "(string, string option) dict \<Rightarrow> (string, addr) dict \<Rightarrow> string list" where
  \<comment> \<open>\<^verbatim>\<open>[node_id for node_id, parent in parents.items() if parent not in nodes]\<close>\<close>
  "find_roots_h parents nodes =
     map fst (filter (\<lambda>(node_id, parent).
        case parent of None \<Rightarrow> True | Some p \<Rightarrow> \<not> dict_contains nodes p) parents)"

text \<open>
  Stage 4, the loop body: \<^verbatim>\<open>list(span.get("tags") or [])\<close> and its two siblings each make a
  new list object with the elements of the span's list, in the order of the arguments
  of \<^verbatim>\<open>SpanRecord(...)\<close>.
\<close>

definition make_record_h ::
  "(string, string option) dict \<Rightarrow> (string, string list) dict \<Rightarrow> (string, int) dict \<Rightarrow>
   addr \<Rightarrow> heap \<Rightarrow> record_obj option \<times> heap" where
  "make_record_h parents children depths span h =
     (let d = span_at h span
      in if \<not> truthy (d_node_id d) then (None, h)
         else let node_id = the (d_node_id d);
                  tags_copy = new_list (items h (d_tags d)) h;
                  logs_copy = new_list (items (snd tags_copy) (d_logs d)) (snd tags_copy);
                  refs_copy = new_list (items (snd logs_copy) (d_refs d)) (snd logs_copy)
              in (Some \<lparr>ro_node_id = node_id,
                        ro_trace_id = d_traceId d,
                        ro_segment_id = d_segmentId d,
                        ro_span_id = d_spanId d,
                        ro_parent_span_id = d_parentSpanId d,
                        ro_parent_node_id = dict_get_or parents node_id None,
                        ro_service_code = d_serviceCode d,
                        ro_service_instance = d_serviceInstanceName d,
                        ro_start_ms = (case d_startTime d of
                                         Missing \<Rightarrow> Some 0 | Null \<Rightarrow> None | Present t \<Rightarrow> Some t),
                        ro_end_ms = (case d_endTime d of
                                       Missing \<Rightarrow> Some 0 | Null \<Rightarrow> None | Present t \<Rightarrow> Some t),
                        ro_endpoint_name = d_endpointName d,
                        ro_span_type = d_spanType d,
                        ro_peer = d_peer d,
                        ro_component = d_component d,
                        ro_is_error = (case d_isError d of None \<Rightarrow> False | Some b \<Rightarrow> b),
                        ro_layer = d_layer d,
                        ro_tags = fst tags_copy,
                        ro_logs = fst logs_copy,
                        ro_refs = fst refs_copy,
                        ro_children_ids = dict_get_or children node_id [],
                        ro_depth = dict_get_or depths node_id 0\<rparr>,
                  snd refs_copy))"

fun records_h ::
  "(string, string option) dict \<Rightarrow> (string, string list) dict \<Rightarrow> (string, int) dict \<Rightarrow>
   addr list \<Rightarrow> heap \<Rightarrow> record_obj list \<times> heap" where
  "records_h parents children depths [] h = ([], h)"
| "records_h parents children depths (span # rest) h =
     (case make_record_h parents children depths span h of
        (None, h1) \<Rightarrow> records_h parents children depths rest h1
      | (Some r, h1) \<Rightarrow>
          (case records_h parents children depths rest h1 of
             (recs, h2) \<Rightarrow> (r # recs, h2)))"

text \<open>
  The function on the heap. Stages 2 and 3 contain no assignment to an object of the
  heap: stage 2 reads each span dictionary (\<open>link_span\<close> on what \<open>load\<close> reads) and
  stage 3 works on the local dictionaries. The result is \<open>None\<close> when the breadth-first
  loop does not end; otherwise it is the heap after the call with the returned pair.
\<close>

definition build_h :: "heap \<Rightarrow> addr list \<Rightarrow> (heap \<times> record_obj list \<times> string list) option" where
  "build_h h spans =
     (case fold normalise_span_h spans (h, [], []) of
        (h1, nodes, children0) \<Rightarrow>
          (case fold (\<lambda>span. link_span (load h1 span)) spans ([], children0) of
             (parents, children) \<Rightarrow>
               let roots = find_roots_h parents nodes;
                   queue = map (\<lambda>node_id. (node_id, 0)) roots
               in (case bfs_loop children (queue, []) of
                     None \<Rightarrow> None
                   | Some depths \<Rightarrow>
                       (case records_h parents children depths spans h1 of
                          (recs, h2) \<Rightarrow> Some (h2, recs, roots)))))"

subsection \<open>Trace retrieval: \<^verbatim>\<open>fetch_trace_summaries\<close>\<close>

record trace_summary =
  ts_trace_id :: string
  ts_duration_ms :: int
  ts_start_ms :: int
  ts_is_error :: bool
  ts_endpoint_names :: "string list"

text \<open>
  One entry of a page of \<^verbatim>\<open>queryBasicTraces\<close>. \<open>e_duration\<close> and \<open>e_start\<close> are \<open>None\<close>
  where \<^verbatim>\<open>int(...)\<close> raises \<^verbatim>\<open>TypeError\<close> or \<^verbatim>\<open>ValueError\<close>.
\<close>

record trace_entry =
  e_trace_ids :: "string list"
  e_duration :: "int option"
  e_start :: "int option"
  e_is_error :: "bool option"
  e_endpoint_names :: "string list"

record page_result =
  r_total :: int
  r_traces :: "trace_entry list"

text \<open>The \<^verbatim>\<open>RuntimeError\<close> of \<^verbatim>\<open>_post_graphql\<close>, "GraphQL request failed after ... attempts".\<close>

datatype backend_error = GraphQLRequestFailed

text \<open>
  \<^verbatim>\<open>_post_graphql\<close> on the trace-list query is the parameter \<open>post\<close>: given the page number
  and the page size (the time window, the order and the minimum duration are fixed
  during one call) it gives the decoded \<^verbatim>\<open>data\<close> object, \<open>None\<close> when that is missing, or
  the \<^verbatim>\<open>RuntimeError\<close> raised once the retries are used up.
\<close>

type_synonym trace_list_query = "int \<Rightarrow> int \<Rightarrow> backend_error + page_result option"

text \<open>The inner loop over the entries of one page; it stops at the limit.\<close>

fun add_entries ::
  "int \<Rightarrow> trace_entry list \<Rightarrow> trace_summary list \<times> string set \<Rightarrow>
   trace_summary list \<times> string set" where
  "add_entries limit [] st = st"
| "add_entries limit (entry # rest) st =
     (let trace_ids = e_trace_ids entry
      in if trace_ids = [] then add_entries limit rest st
         else let trace_id = hd trace_ids
              in if trace_id \<in> snd st then add_entries limit rest st
                 else let seen = insert trace_id (snd st);
                          duration = (case e_duration entry of None \<Rightarrow> 0 | Some d \<Rightarrow> d);
                          start_ms = (case e_start entry of None \<Rightarrow> 0 | Some t \<Rightarrow> t);
                          summaries = fst st @
                            [\<lparr>ts_trace_id = trace_id, ts_duration_ms = duration,
                              ts_start_ms = start_ms,
                              ts_is_error = (case e_is_error entry of None \<Rightarrow> False | Some b \<Rightarrow> b),
                              ts_endpoint_names = e_endpoint_names entry\<rparr>]
                      in if limit \<noteq> 0 \<and> int (length summaries) \<ge> limit
                         then (summaries, seen)
                         else add_entries limit rest (summaries, seen))"

text \<open>
  One pass through the body of the \<^verbatim>\<open>while True\<close> loop over the pages, on the state
  (summaries, seen, total_available, page): \<open>Inl\<close> is a \<^verbatim>\<open>break\<close> (or the exception of
  the request) with what the function then returns from, \<open>Inr\<close> the state for the next
  pass. \<^verbatim>\<open>if limit and ...\<close> tests \<open>limit \<noteq> 0\<close>.
\<close>

definition page_pass ::
  "trace_list_query \<Rightarrow> int \<Rightarrow> int \<Rightarrow> trace_summary list \<times> string set \<times> int \<times> int \<Rightarrow>
   (backend_error + trace_summary list \<times> int) +
   trace_summary list \<times> string set \<times> int \<times> int" where
  "page_pass post limit page_size st =
     (case st of (summaries, seen, total_available, page) \<Rightarrow>
        if limit \<noteq> 0 \<and> int (length summaries) \<ge> limit
        then Inl (Inr (summaries, total_available))
        else (case post page page_size of
                Inl err \<Rightarrow> Inl (Inl err)
              | Inr result \<Rightarrow>
                  let traces = (case result of None \<Rightarrow> [] | Some r \<Rightarrow> r_traces r);
                      total_available = (case result of None \<Rightarrow> 0 | Some r \<Rightarrow> r_total r)
                  in if traces = [] then Inl (Inr (summaries, total_available))
                     else (case add_entries limit traces (summaries, seen) of
                             (summaries, seen) \<Rightarrow>
                               if int (length traces) < page_size
                               then Inl (Inr (summaries, total_available))
                               else Inr (summaries, seen, total_available, page + 1))))"

text \<open>
  The loop itself. It need not end (a backend may hand out full pages for ever), so
  the result is an option.
\<close>

partial_function (option) fetch_pages ::
  "trace_list_query \<Rightarrow> int \<Rightarrow> int \<Rightarrow> trace_summary list \<times> string set \<times> int \<times> int \<Rightarrow>
   (backend_error + trace_summary list \<times> int) option" where
  "fetch_pages post limit page_size st =
     (case page_pass post limit page_size st of
        Inl done \<Rightarrow> Some done
      | Inr st' \<Rightarrow> fetch_pages post limit page_size st')"

declare fetch_pages.simps [code]

definition slice_to :: "'a list \<Rightarrow> int \<Rightarrow> 'a list" where
  \<comment> \<open>\<^verbatim>\<open>xs[:n]\<close>; a negative \<^verbatim>\<open>n\<close> counts from the end\<close>
  "slice_to xs n = (if n < 0 then take (nat (int (length xs) + n)) xs else take (nat n) xs)"

definition fetch_trace_summaries ::
  "trace_list_query \<Rightarrow> int \<Rightarrow> int \<Rightarrow> (backend_error + trace_summary list \<times> int) option" where
  "fetch_trace_summaries post limit page_size0 =
     (let page_size = max 1 (min page_size0 (if limit > 0 then limit else page_size0))
      in case fetch_pages post limit page_size ([], {}, 0, 1) of
           None \<Rightarrow> None
         | Some (Inl err) \<Rightarrow> Some (Inl err)
         | Some (Inr (summaries, total_available)) \<Rightarrow>
             Some (Inr (if limit \<noteq> 0 then slice_to summaries limit else summaries,
                        total_available)))"

subsection \<open>The workflow: \<^verbatim>\<open>collect_traces\<close>\<close>

record summary_out =
  so_trace_id :: string
  so_duration_ms :: int
  so_start_time_utc :: string
  so_start_timestamp_ms :: int
  so_is_error :: bool
  so_endpoint_names :: "string list"

definition summary_to_dict :: "(int \<Rightarrow> string) \<Rightarrow> trace_summary \<Rightarrow> summary_out" where
  "summary_to_dict utc_iso self =
     \<lparr>so_trace_id = ts_trace_id self, so_duration_ms = ts_duration_ms self,
      so_start_time_utc = utc_iso (ts_start_ms self),
      so_start_timestamp_ms = ts_start_ms self, so_is_error = ts_is_error self,
      so_endpoint_names = ts_endpoint_names self\<rparr>"

record trace_record =
  tr_summary :: summary_out
  tr_span_count :: nat
  tr_services_involved :: "string list"
  tr_root_span_node_ids :: "string list"
  tr_spans :: "span_out list"

text \<open>The attributes of the collector that \<^verbatim>\<open>collect_traces\<close> reads.\<close>

record collector =
  skywalking_url :: string
  graphql_endpoint :: string

record 'h metadata =
  generated_at :: string
  lookback_hours :: 'h
  requested_trace_limit :: int
  min_trace_duration_ms :: int
  collected_traces :: nat
  available_total :: int
  services_discovered :: "string list"
  experiment_name :: "string option"
  skywalking_base_url :: string
  skywalking_graphql :: string

record 'h payload =
  p_metadata :: "'h metadata"
  p_traces :: "trace_record list"

text \<open>
  The exceptions that leave \<^verbatim>\<open>collect_traces\<close>: three \<^verbatim>\<open>RuntimeError\<close>s, the one
  \<^verbatim>\<open>fetch_trace_summaries\<close> lets through, "No trace summaries were returned by
  SkyWalking." and "All trace detail requests failed; nothing collected."; and the
  \<^verbatim>\<open>TypeError\<close> of \<^verbatim>\<open>to_dict\<close>, which is raised in the loop over the futures after the
  \<^verbatim>\<open>try\<close> statement and is not caught.
\<close>

datatype run_error = TraceListFailed | NoSummaries | AllFetchesFailed | Uncaught py_error

text \<open>
  The loop over the completed futures, on the state (collected, services_seen). The
  result of the future of a summary is \<open>fetch\<close> at its trace identifier: the span list,
  or the exception \<^verbatim>\<open>future.result()\<close> raises. A fetch that raised is logged and skipped.
  The loop gives \<open>None\<close> when a call of \<^verbatim>\<open>_build_span_records\<close> does not end, the
  exception when \<^verbatim>\<open>to_dict\<close> raises one, and the final state otherwise.
\<close>

fun collect_loop ::
  "(string \<Rightarrow> backend_error + raw_span list) \<Rightarrow> (int \<Rightarrow> string) \<Rightarrow> trace_summary list \<Rightarrow>
   trace_record list \<times> string set \<Rightarrow> (py_error + trace_record list \<times> string set) option" where
  "collect_loop fetch utc_iso [] st = Some (Inr st)"
| "collect_loop fetch utc_iso (summary # rest) st =
     (case fetch (ts_trace_id summary) of
        Inl exc \<Rightarrow> collect_loop fetch utc_iso rest st
      | Inr spans \<Rightarrow>
          (case build_span_records spans of
             None \<Rightarrow> None
           | Some ((span_records, roots), _) \<Rightarrow>
               if span_records = [] then collect_loop fetch utc_iso rest st
               else let services =
                          sort (remdups (List.map_filter
                            (\<lambda>r. if truthy (service_code r) then service_code r else None)
                            span_records))
                    in (case to_dict_all utc_iso span_records of
                          Inl exc \<Rightarrow> Some (Inl exc)
                        | Inr span_dicts \<Rightarrow>
                            collect_loop fetch utc_iso rest
                              (fst st @
                                 [\<lparr>tr_summary = summary_to_dict utc_iso summary,
                                   tr_span_count = length span_records,
                                   tr_services_involved = services,
                                   tr_root_span_node_ids = roots,
                                   tr_spans = span_dicts\<rparr>],
                               snd st \<union> set services))))"

text \<open>
  \<^verbatim>\<open>collect_traces\<close>. The parameters beyond the source's own: \<open>post\<close> and \<open>fetch\<close> are the
  two queries of the backend, \<open>completed\<close> is the order in which \<^verbatim>\<open>as_completed\<close> hands the
  futures over, \<open>utc_iso\<close> and \<open>now\<close> are the clock, and \<open>files\<close> are the artifacts written
  so far (the name of the file, made from the clock and the experiment name, is left
  out). The lookback \<open>hours\<close>, a float that is only passed on, has an arbitrary type, and
  the parameter \<^verbatim>\<open>size\<close> is \<open>size'\<close> here. The result is \<open>None\<close> when a loop does not end;
  otherwise it is the artifact written or the error raised, with the files after the
  call.
\<close>

definition collect_traces ::
  "collector \<Rightarrow> trace_list_query \<Rightarrow> (string \<Rightarrow> backend_error + raw_span list) \<Rightarrow>
   (trace_summary list \<Rightarrow> trace_summary list) \<Rightarrow> (int \<Rightarrow> string) \<Rightarrow> string \<Rightarrow>
   'h payload list \<Rightarrow> int \<Rightarrow> 'h \<Rightarrow> int \<Rightarrow> string option \<Rightarrow>
   ((run_error + 'h payload) \<times> 'h payload list) option" where
  "collect_traces self post fetch completed utc_iso now files size' hours min_duration_ms exp_name =
     (case fetch_trace_summaries post size' 200 of
        None \<Rightarrow> None
      | Some (Inl err) \<Rightarrow> Some (Inl TraceListFailed, files)
      | Some (Inr (summaries, total_available)) \<Rightarrow>
          if summaries = [] then Some (Inl NoSummaries, files)
          else (case collect_loop fetch utc_iso (completed summaries) ([], {}) of
                  None \<Rightarrow> None
                | Some (Inl exc) \<Rightarrow> Some (Inl (Uncaught exc), files)
                | Some (Inr (collected, services_seen)) \<Rightarrow>
                    if collected = [] then Some (Inl AllFetchesFailed, files)
                    else let artifact =
                               \<lparr>p_metadata =
                                  \<lparr>generated_at = now,
                                   lookback_hours = hours,
                                   requested_trace_limit = size',
                                   min_trace_duration_ms = min_duration_ms,
                                   collected_traces = length collected,
                                   available_total = total_available,
                                   services_discovered = sorted_list_of_set services_seen,
                                   experiment_name = exp_name,
                                   skywalking_base_url = skywalking_url self,
                                   skywalking_graphql = graphql_endpoint self\<rparr>,
                                p_traces = collected\<rparr>
                         in Some (Inr artifact, files @ [artifact])))"

section \<open>Notions used to state the properties\<close>

subsection \<open>Node identifiers and parent links of a span list\<close>

text \<open>
  The node identifier stage 1 gives a raw span, \<open>None\<close> for a span it drops; the span
  dictionary as stage 1 leaves it; the pairs (node identifier, resolved parent) of the
  kept spans, in the order of the spans; the node identifiers of the kept spans; and
  the kept spans whose own resolved parent is \<open>p\<close>.
\<close>

definition node_id_of :: "raw_span \<Rightarrow> string option" where
  "node_id_of sp =
     (if segmentId sp = None \<or> spanId sp = None then None
      else Some (make_node_id (segmentId sp) (spanId sp)))"

definition tag :: "raw_span \<Rightarrow> tagged_span" where
  "tag sp = \<lparr>raw = sp, node_id_key = node_id_of sp\<rparr>"

definition links :: "raw_span list \<Rightarrow> (string \<times> string option) list" where
  "links spans =
     List.map_filter (\<lambda>sp. map_option (\<lambda>n. (n, resolve_parent sp)) (node_id_of sp)) spans"

definition kept_ids :: "raw_span list \<Rightarrow> string list" where
  "kept_ids spans = map fst (links spans)"

definition kids :: "raw_span list \<Rightarrow> string \<Rightarrow> string list" where
  "kids spans p = map fst (filter (\<lambda>l. snd l = Some p) (links spans))"

text \<open>
  The parent link of a node: the resolved parent of the span with that identifier, when
  it is the identifier of a kept span. A node without a parent link is a root.
\<close>

definition parent_link :: "raw_span list \<Rightarrow> string \<Rightarrow> string option" where
  "parent_link spans n =
     (case map_of (links spans) n of
        Some (Some p) \<Rightarrow> if p \<in> set (kept_ids spans) then Some p else None
      | _ \<Rightarrow> None)"

text \<open>\<open>hops par n r k\<close>: following \<open>k\<close> parent links from \<open>n\<close> leads to \<open>r\<close>.\<close>

inductive hops :: "(string \<Rightarrow> string option) \<Rightarrow> string \<Rightarrow> string \<Rightarrow> nat \<Rightarrow> bool"
  for par :: "string \<Rightarrow> string option" where
  hops_here: "hops par r r 0"
| hops_up: "par n = Some p \<Longrightarrow> hops par p r k \<Longrightarrow> hops par n r (Suc k)"

text \<open>\<open>lvl par n k\<close>: following \<open>k\<close> parent links from \<open>n\<close> leads to a node without one.\<close>

inductive lvl :: "(string \<Rightarrow> string option) \<Rightarrow> string \<Rightarrow> nat \<Rightarrow> bool"
  for par :: "string \<Rightarrow> string option" where
  lvl_root: "par n = None \<Longrightarrow> lvl par n 0"
| lvl_child: "par n = Some p \<Longrightarrow> lvl par p k \<Longrightarrow> lvl par n (Suc k)"

subsection \<open>The state of the breadth-first loop\<close>

text \<open>The queue and the depth map after \<open>k\<close> passes through the loop body.\<close>

definition bfs_run :: "raw_span list \<Rightarrow> nat \<Rightarrow> (string \<times> int) list \<times> (string, int) dict" where
  "bfs_run spans k =
     (case build_maps spans of
        (spans1, nodes, parents, children) \<Rightarrow>
          (bfs_step children ^^ k) (map (\<lambda>n. (n, 0)) (find_roots parents nodes), []))"

text \<open>
  The children map \<open>C\<close> and the root list \<open>R\<close> are those of the parent function \<open>par\<close> on
  the finite node set \<open>K\<close>, without repetitions.
\<close>

definition forest ::
  "string set \<Rightarrow> (string \<Rightarrow> string option) \<Rightarrow> (string, string list) dict \<Rightarrow> string list \<Rightarrow> bool" where
  "forest K par C R \<longleftrightarrow>
     finite K \<and> distinct R \<and> set R = {n \<in> K. par n = None}
     \<and> (\<forall>p. distinct (dict_get_or C p []) \<and> set (dict_get_or C p []) = {c \<in> K. par c = Some p})
     \<and> (\<forall>n p. par n = Some p \<longrightarrow> p \<in> K)"

text \<open>
  The loop invariant, in three parts, for the queue \<open>q\<close>, the depth map \<open>D\<close> and the set
  \<open>V\<close> of its keys: queued nodes are distinct and not yet visited, and whatever is
  queued or visited is a root or a child of a visited node; every depth in the queue
  or in the map is the number of parent links up to a root; and the roots and the
  children of visited nodes are queued or visited.
\<close>

definition inv_struct ::
  "string set \<Rightarrow> (string \<Rightarrow> string option) \<Rightarrow> (string \<times> int) list \<Rightarrow> string set \<Rightarrow> bool" where
  "inv_struct K par q V \<longleftrightarrow>
     distinct (map fst q) \<and> set (map fst q) \<inter> V = {} \<and> set (map fst q) \<subseteq> K \<and> V \<subseteq> K
     \<and> (\<forall>c \<in> V \<union> set (map fst q). par c = None \<or> (\<exists>p\<in>V. par c = Some p))"

definition inv_lvl ::
  "(string \<Rightarrow> string option) \<Rightarrow> (string \<times> int) list \<Rightarrow> (string, int) dict \<Rightarrow> bool" where
  "inv_lvl par q D \<longleftrightarrow>
     (\<forall>(n, d) \<in> set q. \<exists>k. d = int k \<and> lvl par n k)
     \<and> (\<forall>n d. map_of D n = Some d \<longrightarrow> (\<exists>k. d = int k \<and> lvl par n k))"

definition inv_closed ::
  "string set \<Rightarrow> (string \<Rightarrow> string option) \<Rightarrow> string list \<Rightarrow> (string \<times> int) list \<Rightarrow>
   string set \<Rightarrow> bool" where
  "inv_closed K par R q V \<longleftrightarrow>
     set R \<subseteq> V \<union> set (map fst q)
     \<and> (\<forall>p\<in>V. \<forall>c\<in>K. par c = Some p \<longrightarrow> c \<in> V \<union> set (map fst q))"

definition bfs_inv ::
  "string set \<Rightarrow> (string \<Rightarrow> string option) \<Rightarrow> string list \<Rightarrow>
   (string \<times> int) list \<times> (string, int) dict \<Rightarrow> bool" where
  "bfs_inv K par R st \<longleftrightarrow>
     inv_struct K par (fst st) (fst ` set (snd st))
     \<and> inv_lvl par (fst st) (snd st)
     \<and> inv_closed K par R (fst st) (fst ` set (snd st))"

subsection \<open>Sets of node identifiers read off the returned records\<close>

text \<open>
  The identifiers of the records whose \<^verbatim>\<open>parent_node_id\<close> is null or is not the identifier
  of a record; the identifiers of the records whose \<^verbatim>\<open>parent_node_id\<close> is the identifier of
  a record; and the union of the \<^verbatim>\<open>children_node_ids\<close> of all records.
\<close>

definition parentless :: "'t span_record list \<Rightarrow> string set" where
  "parentless recs =
     set (map node_id (filter (\<lambda>r.
        case parent_node_id r of None \<Rightarrow> True | Some p \<Rightarrow> p \<notin> set (map node_id recs)) recs))"

definition with_known_parent :: "'t span_record list \<Rightarrow> string set" where
  "with_known_parent recs =
     set (map node_id (filter (\<lambda>r.
        case parent_node_id r of None \<Rightarrow> False | Some p \<Rightarrow> p \<in> set (map node_id recs)) recs))"

definition all_children :: "'t span_record list \<Rightarrow> string set" where
  "all_children recs = set (concat (map children_ids recs))"

text \<open>
  The parent map of the records, inverted at one node: the identifiers of the records
  whose \<^verbatim>\<open>parent_node_id\<close> is \<open>n\<close>, in the order of the records.
\<close>

definition inverted_parents :: "'t span_record list \<Rightarrow> string \<Rightarrow> string list" where
  "inverted_parents recs n = map node_id (filter (\<lambda>c. parent_node_id c = Some n) recs)"

definition records_of :: "raw_span list \<Rightarrow> int option span_record list" where
  "records_of spans =
     (case build_span_records spans of None \<Rightarrow> [] | Some ((recs, roots), ts) \<Rightarrow> recs)"

definition record_view :: "'t span_record \<Rightarrow> string \<times> string option \<times> int \<times> string list" where
  "record_view r = (node_id r, parent_node_id r, depth r, children_ids r)"

text \<open>
  What the claims read off a call: the identifier, parent, depth and children of each
  returned record, and the root list.
\<close>

definition build_view ::
  "raw_span list \<Rightarrow> ((string \<times> string option \<times> int \<times> string list) list \<times> string list) option" where
  "build_view spans =
     (case build_span_records spans of
        None \<Rightarrow> None
      | Some ((recs, roots), ts) \<Rightarrow> Some (map record_view recs, roots))"

subsection \<open>Notions on the heap\<close>

text \<open>
  A record object read through its references, as a record of the first reading.
\<close>

definition load_record :: "heap \<Rightarrow> record_obj \<Rightarrow> int option span_record" where
  "load_record h r =
     \<lparr>node_id = ro_node_id r,
      trace_id = ro_trace_id r,
      segment_id = ro_segment_id r,
      span_id = ro_span_id r,
      parent_span_id = ro_parent_span_id r,
      parent_node_id = ro_parent_node_id r,
      service_code = ro_service_code r,
      service_instance = ro_service_instance r,
      start_ms = ro_start_ms r,
      end_ms = ro_end_ms r,
      endpoint_name = ro_endpoint_name r,
      span_type = ro_span_type r,
      rec_peer = ro_peer r,
      rec_component = ro_component r,
      is_error = ro_is_error r,
      rec_layer = ro_layer r,
      rec_tags = map (tag_at h) (list_at h (ro_tags r)),
      rec_logs = map (log_at h) (list_at h (ro_logs r)),
      rec_refs = map (ref_at h) (list_at h (ro_refs r)),
      children_ids = ro_children_ids r,
      depth = ro_depth r\<rparr>"

text \<open>
  What stage 1 makes of a span dictionary: a kept one gets its node identifier under
  \<^verbatim>\<open>_node_id\<close>, a dropped one is left as it is. The heap after stage 1.
\<close>

definition stamped :: "span_dict \<Rightarrow> span_dict" where
  "stamped d =
     (if d_segmentId d = None \<or> d_spanId d = None then d
      else d\<lparr>d_node_id := Some (make_node_id (d_segmentId d) (d_spanId d))\<rparr>)"

definition after_stage1 :: "heap \<Rightarrow> addr list \<Rightarrow> heap" where
  "after_stage1 h spans = fst (fold normalise_span_h spans (h, [], []))"

text \<open>
  The list objects a span dictionary refers to. The lists of the spans passed are
  allocated when their addresses are in use, so that a new object is none of them.
\<close>

definition lists_of :: "span_dict \<Rightarrow> addr set" where
  "lists_of d = set_option (d_tags d) \<union> set_option (d_logs d) \<union> set_option (d_refs d)"

definition allocated :: "heap \<Rightarrow> addr list \<Rightarrow> bool" where
  "allocated h spans \<longleftrightarrow> (\<forall>a\<in>set spans. \<forall>l\<in>lists_of (span_at h a). l < next_free h)"

text \<open>
  The list objects of a record. The record \<open>r\<close> is a shallow copy of the span dictionary
  at \<open>a\<close> when, in the heap \<open>h'\<close> after the call, it has the span's node identifier, its
  three lists are objects that were not in use in the heap \<open>h\<close> before the call, and each
  holds the same addresses, that is the same dictionaries, as the span's list.
\<close>

definition list_addrs :: "record_obj \<Rightarrow> addr list" where
  "list_addrs r = [ro_tags r, ro_logs r, ro_refs r]"

definition copied :: "heap \<Rightarrow> heap \<Rightarrow> record_obj \<Rightarrow> addr \<Rightarrow> bool" where
  "copied h h' r a \<longleftrightarrow>
     d_node_id (span_at h' a) = Some (ro_node_id r)
     \<and> list_all (\<lambda>l. next_free h \<le> l) (list_addrs r)
     \<and> list_at h' (ro_tags r) = items h' (d_tags (span_at h' a))
     \<and> list_at h' (ro_logs r) = items h' (d_logs (span_at h' a))
     \<and> list_at h' (ro_refs r) = items h' (d_refs (span_at h' a))"

subsection \<open>A fetch that yields a trace record\<close>






subsection \<open>Concrete inputs\<close>

definition mk_span :: "string \<Rightarrow> int \<Rightarrow> int option \<Rightarrow> span_ref list \<Rightarrow> raw_span" where
  "mk_span seg sid par rs =
     \<lparr>traceId = None, segmentId = Some seg, spanId = Some sid, parentSpanId = par,
      serviceCode = None, serviceInstanceName = None, startTime = Missing, endTime = Missing,
      endpointName = None, spanType = None, peer = None, component = None, isError = None,
      layer = None, tags = [], logs = [], refs = rs\<rparr>"

definition mk_ref :: "string option \<Rightarrow> int option \<Rightarrow> span_ref" where
  "mk_ref seg sid =
     \<lparr>ref_trace_id = None, ref_parent_segment_id = seg, ref_parent_span_id = sid,
      ref_type = None\<rparr>"

text \<open>The three spans of the specification's example.\<close>

definition example_spans :: "raw_span list" where
  "example_spans =
     [mk_span ''A'' 0 (Some (- 1)) [], mk_span ''A'' 1 (Some 0) [],
      mk_span ''B'' 0 None [mk_ref (Some ''A'') (Some 1)]]"

text \<open>Two spans with the node identifier \<^verbatim>\<open>A:0\<close>; the first names itself as its parent.\<close>

definition self_loop_spans :: "raw_span list" where
  "self_loop_spans = [mk_span ''A'' 0 (Some 0) [], mk_span ''A'' 0 (Some (- 1)) []]"

text \<open>Distinct node identifiers, a root \<^verbatim>\<open>B:0\<close> with a child, and a cycle \<^verbatim>\<open>A:0\<close>, \<^verbatim>\<open>A:1\<close>.\<close>

definition cycle_spans :: "raw_span list" where
  "cycle_spans =
     [mk_span ''A'' 0 (Some 1) [], mk_span ''A'' 1 (Some 0) [],
      mk_span ''B'' 0 (Some (- 1)) [], mk_span ''B'' 1 (Some 0) []]"

text \<open>A span whose first reference has no parent segment.\<close>

definition ref_without_segment :: raw_span where
  "ref_without_segment = mk_span ''B'' 0 None [mk_ref None (Some 1)]"

text \<open>One span whose parent \<^verbatim>\<open>A:0\<close> is not in the list.\<close>

definition dangling_spans :: "raw_span list" where
  "dangling_spans = [mk_span ''A'' 1 (Some 0) []]"

text \<open>The same span twice.\<close>

definition twin_spans :: "raw_span list" where
  "twin_spans = [mk_span ''A'' 0 (Some (- 1)) [], mk_span ''A'' 0 (Some (- 1)) []]"

text \<open>Two spans with the node identifier \<^verbatim>\<open>A:1\<close>: one under \<^verbatim>\<open>A:0\<close>, one without a parent.\<close>

definition dup_spans :: "raw_span list" where
  "dup_spans =
     [mk_span ''A'' 0 (Some (- 1)) [], mk_span ''A'' 1 (Some 0) [],
      mk_span ''A'' 1 (Some (- 1)) []]"

text \<open>
  A backend with three traces on its first page and nothing after it, and the three
  summaries discovery makes of them.
\<close>

definition mk_entry :: "string \<Rightarrow> trace_entry" where
  "mk_entry tid = \<lparr>e_trace_ids = [tid], e_duration = Some 5, e_start = Some 1000,
     e_is_error = None, e_endpoint_names = []\<rparr>"

definition three_backend :: trace_list_query where
  "three_backend page page_size =
     (if page = 1
      then Inr (Some \<lparr>r_total = 3, r_traces = [mk_entry ''t1'', mk_entry ''t2'', mk_entry ''t3'']\<rparr>)
      else Inr (Some \<lparr>r_total = 3, r_traces = []\<rparr>))"

definition mk_summary :: "string \<Rightarrow> trace_summary" where
  "mk_summary tid = \<lparr>ts_trace_id = tid, ts_duration_ms = 5, ts_start_ms = 1000,
     ts_is_error = False, ts_endpoint_names = []\<rparr>"

definition three_summaries :: "trace_summary list" where
  "three_summaries = [mk_summary ''t1'', mk_summary ''t2'', mk_summary ''t3'']"







text \<open>The trace identifiers of the summaries a discovery returns, with the total.\<close>

definition fetch_view ::
  "trace_list_query \<Rightarrow> int \<Rightarrow> int \<Rightarrow> (backend_error + string list \<times> int) option" where
  "fetch_view post limit page_size =
     (case fetch_trace_summaries post limit page_size of
        None \<Rightarrow> None
      | Some (Inl err) \<Rightarrow> Some (Inl err)
      | Some (Inr (summaries, total_available)) \<Rightarrow> Some (Inr (map ts_trace_id summaries, total_available)))"

text \<open>
  The invariant of the de-duplication: the summaries have distinct trace identifiers,
  all of them in \<^verbatim>\<open>seen\<close>.
\<close>

definition seen_inv :: "trace_summary list \<times> string set \<Rightarrow> bool" where
  "seen_inv st \<longleftrightarrow> distinct (map ts_trace_id (fst st)) \<and> set (map ts_trace_id (fst st)) \<subseteq> snd st"

text \<open>
  A heap with one span dictionary, at address 0, whose tag list, at address 1, holds one
  tag dictionary, at address 2; and a second value for that tag dictionary.
\<close>

definition blank_dict :: span_dict where
  "blank_dict =
     \<lparr>d_traceId = None, d_segmentId = None, d_spanId = None, d_parentSpanId = None,
      d_serviceCode = None, d_serviceInstanceName = None, d_startTime = Missing,
      d_endTime = Missing, d_endpointName = None, d_spanType = None, d_peer = None,
      d_component = None, d_isError = None, d_layer = None, d_tags = None, d_logs = None,
      d_refs = None, d_node_id = None\<rparr>"

definition http_tag :: key_value where
  "http_tag = \<lparr>kv_key = ''http.method'', kv_value = Some ''GET''\<rparr>"

definition post_tag :: key_value where
  "post_tag = \<lparr>kv_key = ''http.method'', kv_value = Some ''POST''\<rparr>"

definition tagged_heap :: heap where
  "tagged_heap =
     \<lparr>span_at = (\<lambda>a. if a = 0
                      then blank_dict\<lparr>d_segmentId := Some ''A'', d_spanId := Some 0,
                                       d_parentSpanId := Some (- 1), d_tags := Some 1\<rparr>
                      else blank_dict),
      list_at = (\<lambda>a. if a = 1 then [2] else []),
      tag_at = (\<lambda>a. http_tag),
      log_at = (\<lambda>a. \<lparr>log_time = 0, log_data = []\<rparr>),
      ref_at = (\<lambda>a. mk_ref None None),
      next_free = 3\<rparr>"

section \<open>Lemmas on the stages of \<^verbatim>\<open>_build_span_records\<close>\<close>

lemma make_node_id_nonempty: "make_node_id seg sid \<noteq> []"
  by (simp add: make_node_id_def)

lemma node_id_of_truthy: "node_id_of sp = Some n \<Longrightarrow> n \<noteq> []"
  by (auto simp: node_id_of_def make_node_id_nonempty split: if_splits)

lemma dict_contains_set: "dict_contains (dict_set d k v) k' \<longleftrightarrow> k' = k \<or> dict_contains d k'"
  by (auto simp: dict_contains_def dict_set_def update_conv')

lemma map_of_dict_set: "map_of (dict_set d k v) = (map_of d)(k \<mapsto> v)"
  by (simp add: dict_set_def update_conv')

lemma map_of_dict_setdefault:
  "map_of (dict_setdefault d k v) k' = (if dict_contains d k' then map_of d k' else if k' = k then Some v else None)"
  by (auto simp: dict_setdefault_def dict_contains_def map_add_def split: option.splits)

lemma normalise_fresh:
  "normalise (map (\<lambda>sp. \<lparr>raw = sp, node_id_key = None\<rparr>) spans) (N, C) = (ts', N', C') \<Longrightarrow>
   ts' = map tag spans
   \<and> (\<forall>k. dict_contains N' k \<longleftrightarrow> dict_contains N k \<or> k \<in> set (kept_ids spans))
   \<and> (\<forall>k. map_of C' k = (if dict_contains C k then map_of C k
                           else if k \<in> set (kept_ids spans) then Some [] else None))"
proof (induction spans arbitrary: N C ts' N' C')
  case Nil
  then show ?case by (auto simp: kept_ids_def links_def dict_contains_def)
next
  case (Cons sp spans)
  show ?case
  proof (cases "node_id_of sp")
    case None
    then have ns: "normalise_span \<lparr>raw = sp, node_id_key = None\<rparr> (N, C) = (\<lparr>raw = sp, node_id_key = None\<rparr>, N, C)"
      by (auto simp: normalise_span_def node_id_of_def Let_def split: if_splits)
    obtain r1 N1 C1 where r: "normalise (map (\<lambda>sp. \<lparr>raw = sp, node_id_key = None\<rparr>) spans) (N, C) = (r1, N1, C1)"
      by (metis prod_cases3)
    from Cons.prems ns r have eq: "ts' = \<lparr>raw = sp, node_id_key = None\<rparr> # r1" "N' = N1" "C' = C1"
      by auto
    from Cons.IH[OF r] None eq show ?thesis
      by (auto simp: tag_def kept_ids_def links_def)
  next
    case (Some n)
    then have ns: "normalise_span \<lparr>raw = sp, node_id_key = None\<rparr> (N, C) =
        (\<lparr>raw = sp, node_id_key = Some n\<rparr>, dict_set N n \<lparr>raw = sp, node_id_key = Some n\<rparr>, dict_setdefault C n [])"
      by (auto simp: normalise_span_def node_id_of_def Let_def split: if_splits)
    obtain r1 N1 C1 where r: "normalise (map (\<lambda>sp. \<lparr>raw = sp, node_id_key = None\<rparr>) spans)
         (dict_set N n \<lparr>raw = sp, node_id_key = Some n\<rparr>, dict_setdefault C n []) = (r1, N1, C1)"
      by (metis prod_cases3)
    from Cons.prems ns r have eq: "ts' = \<lparr>raw = sp, node_id_key = Some n\<rparr> # r1" "N' = N1" "C' = C1"
      by auto
    have ids: "kept_ids (sp # spans) = n # kept_ids spans"
      using Some by (simp add: kept_ids_def links_def)
    from Cons.IH[OF r] have ih1: "r1 = map tag spans"
      and ih2: "\<And>k. dict_contains N1 k \<longleftrightarrow> dict_contains (dict_set N n \<lparr>raw = sp, node_id_key = Some n\<rparr>) k \<or> k \<in> set (kept_ids spans)"
      and ih3: "\<And>k. map_of C1 k = (if dict_contains (dict_setdefault C n []) k then map_of (dict_setdefault C n []) k
                           else if k \<in> set (kept_ids spans) then Some [] else None)"
      by auto
    have a: "ts' = map tag (sp # spans)" using eq ih1 Some by (simp add: tag_def)
    have b: "\<And>k. dict_contains N' k \<longleftrightarrow> dict_contains N k \<or> k \<in> set (kept_ids (sp # spans))"
      using ih2 eq ids by (auto simp: dict_contains_set)
    have c: "\<And>k. map_of C' k = (if dict_contains C k then map_of C k
                           else if k \<in> set (kept_ids (sp # spans)) then Some [] else None)"
      using ih3 eq ids by (auto simp: map_of_dict_setdefault dict_contains_def)
    from a b c show ?thesis by blast
  qed
qed

lemma resolve_parent_nonempty: "resolve_parent sp = Some p \<Longrightarrow> p \<noteq> []"
  by (auto simp: resolve_parent_def Let_def make_node_id_nonempty split: if_splits list.splits)

lemma links_Cons:
  "links (sp # spans) =
     (case node_id_of sp of None \<Rightarrow> links spans | Some n \<Rightarrow> (n, resolve_parent sp) # links spans)"
  by (simp add: links_def split: option.splits)

lemma link_span_tag_None:
  "node_id_of sp = None \<Longrightarrow> link_span (tag sp) (P, C) = (P, C)"
  by (simp add: link_span_def tag_def truthy_def)

lemma link_span_tag_Some:
  "node_id_of sp = Some n \<Longrightarrow>
   link_span (tag sp) (P, C) =
     (dict_set P n (resolve_parent sp),
      case resolve_parent sp of
        None \<Rightarrow> C
      | Some p \<Rightarrow> if dict_contains C p then dict_append C p n else C)"
  by (auto simp: link_span_def tag_def truthy_def Let_def node_id_of_truthy
      resolve_parent_nonempty split: option.splits)

lemma map_of_dict_append:
  "map_of (dict_append d k v) k' =
     (if k' = k then Some (dict_get_or d k [] @ [v]) else map_of d k')"
  by (simp add: dict_append_def map_of_dict_set)

lemma link_fold:
  "fold link_span (map tag spans) (P, C) = (P', C') \<Longrightarrow>
   map_of P' = map_of P ++ map_of (rev (links spans))
   \<and> (\<forall>p. map_of C' p =
        (case map_of C p of None \<Rightarrow> None | Some l \<Rightarrow> Some (l @ kids spans p)))
   \<and> set (map fst P') = set (map fst P) \<union> set (kept_ids spans)
   \<and> (distinct (map fst P) \<longrightarrow> distinct (map fst P'))"
proof (induction spans arbitrary: P C)
  case Nil
  then show ?case by (auto simp: links_def kids_def kept_ids_def split: option.splits)
next
  case (Cons sp spans)
  show ?case
  proof (cases "node_id_of sp")
    case None
    with Cons.prems have "fold link_span (map tag spans) (P, C) = (P', C')"
      by (simp add: link_span_tag_None)
    moreover have "links (sp # spans) = links spans" using None by (simp add: links_Cons)
    then have "kept_ids (sp # spans) = kept_ids spans" "\<And>p. kids (sp # spans) p = kids spans p"
      by (simp_all add: kids_def kept_ids_def)
    ultimately show ?thesis using Cons.IH[of P C] None
      by (simp add: links_Cons split: option.splits)
  next
    case (Some n)
    define C1 where "C1 = (case resolve_parent sp of
        None \<Rightarrow> C
      | Some p \<Rightarrow> if dict_contains C p then dict_append C p n else C)"
    define P1 where "P1 = dict_set P n (resolve_parent sp)"
    from Cons.prems Some have f: "fold link_span (map tag spans) (P1, C1) = (P', C')"
      by (simp add: link_span_tag_Some C1_def P1_def)
    note ih = Cons.IH[OF f]
    have c1: "\<And>p. map_of C1 p = (case map_of C p of None \<Rightarrow> None
         | Some l \<Rightarrow> Some (l @ (if resolve_parent sp = Some p then [n] else [])))"
      by (auto simp: C1_def map_of_dict_append dict_contains_def dict_get_or_def split: option.splits)
    have k: "\<And>p. kids (sp # spans) p = (if resolve_parent sp = Some p then [n] else []) @ kids spans p"
      using Some by (simp add: kids_def links_Cons)
    have a: "map_of P' = map_of P ++ map_of (rev (links (sp # spans)))"
      using ih Some by (simp add: links_Cons P1_def map_of_dict_set map_add_def fun_eq_iff split: option.splits)
    have b: "\<And>p. map_of C' p =
        (case map_of C p of None \<Rightarrow> None | Some l \<Rightarrow> Some (l @ kids (sp # spans) p))"
      using ih c1 k by (simp split: option.splits)
    have c: "set (map fst P') = set (map fst P) \<union> set (kept_ids (sp # spans))"
      using ih Some by (auto simp: P1_def dict_set_def kept_ids_def links_Cons dom_update)
    have d: "distinct (map fst P) \<longrightarrow> distinct (map fst P')"
      using ih by (simp add: P1_def dict_set_def distinct_update)
    from a b c d show ?thesis by blast
  qed
qed

lemma lvl_fun: "lvl par n k \<Longrightarrow> lvl par n k' \<Longrightarrow> k = k'"
proof (induction arbitrary: k' rule: lvl.induct)
  case (lvl_root n)
  from lvl_root.prems lvl_root.hyps show ?case by (cases rule: lvl.cases) auto
next
  case (lvl_child n p k)
  from lvl_child.prems show ?case
  proof (cases rule: lvl.cases)
    case lvl_root
    with lvl_child.hyps show ?thesis by simp
  next
    case (lvl_child p' j)
    with lvl_child.hyps have "p' = p" by simp
    with lvl_child lvl_child.IH[of j] show ?thesis by simp
  qed
qed

lemma bfs_step_Cons:
  "bfs_step C ((n, d) # rest, D) =
     (rest @ map (\<lambda>c. (c, d + 1)) (dict_get_or C n []), dict_set D n d)"
  by (simp add: bfs_step_def Let_def)

lemma bfs_step_Nil: "bfs_step C ([], D) = ([], D)"
  by (simp add: bfs_step_def)

lemma keys_dict_set: "fst ` set (dict_set D n d) = insert n (fst ` set D)"
  by (simp add: dict_set_def dom_update)

lemma map_fst_kids: "map fst (map (\<lambda>c. (c, d)) xs) = xs"
  by (induction xs) auto

lemma map_fst_kids': "map (fst \<circ> (\<lambda>c. (c, d))) xs = xs"
  by (induction xs) auto

lemma in_fstI: "(a, b) \<in> set xs \<Longrightarrow> a \<in> fst ` set xs"
  by force

lemma inv_struct_step:
  assumes f: "forest K par C R" and i: "inv_struct K par ((n, d) # rest) V"
  shows "inv_struct K par (rest @ map (\<lambda>c. (c, d + 1)) (dict_get_or C n [])) (insert n V)"
proof -
  let ?ks = "dict_get_or C n []"
  from f have ks: "distinct ?ks" "set ?ks = {c \<in> K. par c = Some n}"
    by (auto simp: forest_def)
  from i have d: "distinct (map fst rest)" "n \<notin> fst ` set rest" "n \<notin> V" "fst ` set rest \<inter> V = {}"
    "fst ` set rest \<subseteq> K" "n \<in> K" "V \<subseteq> K"
    and w: "\<And>c. c \<in> V \<union> insert n (fst ` set rest) \<Longrightarrow> par c = None \<or> (\<exists>p\<in>V. par c = Some p)"
    by (auto simp: inv_struct_def)
  have nok: "\<And>c. c \<in> set ?ks \<Longrightarrow> c \<notin> V \<union> insert n (fst ` set rest)"
  proof
    fix c assume c: "c \<in> set ?ks" and m: "c \<in> V \<union> insert n (fst ` set rest)"
    from c ks have pc: "par c = Some n" by simp
    from w[OF m] pc have "n \<in> V" by auto
    with d show False by simp
  qed
  have dj: "fst ` set rest \<inter> set ?ks = {}" using nok by blast
  have 1: "distinct (map fst (rest @ map (\<lambda>c. (c, d + 1)) ?ks))"
    using d(1) ks(1) dj by (simp add: map_fst_kids')
  have dk: "set ?ks \<inter> insert n V = {}" using nok by blast
  have dr: "fst ` set rest \<inter> insert n V = {}" using d(2,4) by blast
  have 2: "set (map fst (rest @ map (\<lambda>c. (c, d + 1)) ?ks)) \<inter> insert n V = {}"
    using dk dr by (simp add: map_fst_kids' Int_Un_distrib2)
  have 3: "set (map fst (rest @ map (\<lambda>c. (c, d + 1)) ?ks)) \<subseteq> K" "insert n V \<subseteq> K"
    using d ks by (auto simp: map_fst_kids map_fst_kids' dest: in_fstI)
  have 4: "\<forall>c \<in> insert n V \<union> set (map fst (rest @ map (\<lambda>c. (c, d + 1)) ?ks)).
      par c = None \<or> (\<exists>p\<in>insert n V. par c = Some p)"
  proof
    fix c assume "c \<in> insert n V \<union> set (map fst (rest @ map (\<lambda>c. (c, d + 1)) ?ks))"
    then consider "c \<in> V \<union> insert n (fst ` set rest)" | "c \<in> set ?ks"
      by (auto simp: map_fst_kids map_fst_kids' dest: in_fstI)
    then show "par c = None \<or> (\<exists>p\<in>insert n V. par c = Some p)"
    proof cases
      case 1
      from w[OF 1] show ?thesis by auto
    next
      case 2
      with ks show ?thesis by simp
    qed
  qed
  from 1 2 3 4 show ?thesis unfolding inv_struct_def by blast
qed

lemma inv_lvl_step:
  assumes f: "forest K par C R" and i: "inv_lvl par ((n, d) # rest) D"
  shows "inv_lvl par (rest @ map (\<lambda>c. (c, d + 1)) (dict_get_or C n [])) (dict_set D n d)"
proof -
  let ?ks = "dict_get_or C n []"
  from f have ks: "set ?ks = {c \<in> K. par c = Some n}"
    by (auto simp: forest_def)
  from i obtain k where k: "d = int k" "lvl par n k"
    by (auto simp: inv_lvl_def)
  from i have r: "\<And>m e. (m, e) \<in> set rest \<Longrightarrow> \<exists>j. e = int j \<and> lvl par m j"
    and o: "\<And>m e. map_of D m = Some e \<Longrightarrow> \<exists>j. e = int j \<and> lvl par m j"
    by (auto simp: inv_lvl_def)
  have 1: "\<forall>(m, e) \<in> set (rest @ map (\<lambda>c. (c, d + 1)) ?ks). \<exists>j. e = int j \<and> lvl par m j"
  proof (clarify)
    fix m e assume "(m, e) \<in> set (rest @ map (\<lambda>c. (c, d + 1)) ?ks)"
    then consider "(m, e) \<in> set rest" | "m \<in> set ?ks" "e = d + 1" by auto
    then show "\<exists>j. e = int j \<and> lvl par m j"
    proof cases
      case 1 then show ?thesis by (rule r)
    next
      case 2
      with ks have "par m = Some n" by simp
      with k have "lvl par m (Suc k)" by (auto intro: lvl_child)
      moreover have "e = int (Suc k)" using 2 k by simp
      ultimately show ?thesis by blast
    qed
  qed
  have 2: "\<forall>m e. map_of (dict_set D n d) m = Some e \<longrightarrow> (\<exists>j. e = int j \<and> lvl par m j)"
    using k o by (auto simp: map_of_dict_set split: if_splits)
  from 1 2 show ?thesis unfolding inv_lvl_def by blast
qed

lemma inv_closed_step:
  assumes f: "forest K par C R" and i: "inv_closed K par R ((n, d) # rest) V"
  shows "inv_closed K par R (rest @ map (\<lambda>c. (c, d + 1)) (dict_get_or C n [])) (insert n V)"
proof -
  let ?ks = "dict_get_or C n []"
  from f have ks: "set ?ks = {c \<in> K. par c = Some n}"
    by (auto simp: forest_def)
  from i have a: "set R \<subseteq> V \<union> insert n (fst ` set rest)"
    and b: "\<And>p c. p \<in> V \<Longrightarrow> c \<in> K \<Longrightarrow> par c = Some p \<Longrightarrow> c \<in> V \<union> insert n (fst ` set rest)"
    by (auto simp: inv_closed_def)
  have 1: "set R \<subseteq> insert n V \<union> set (map fst (rest @ map (\<lambda>c. (c, d + 1)) ?ks))"
    using a by auto
  have 2: "\<forall>p\<in>insert n V. \<forall>c\<in>K. par c = Some p \<longrightarrow>
      c \<in> insert n V \<union> set (map fst (rest @ map (\<lambda>c. (c, d + 1)) ?ks))"
  proof (intro ballI impI)
    fix p c assume p: "p \<in> insert n V" and c: "c \<in> K" "par c = Some p"
    show "c \<in> insert n V \<union> set (map fst (rest @ map (\<lambda>c. (c, d + 1)) ?ks))"
    proof (cases "p = n")
      case True
      with c ks have "c \<in> set ?ks" by simp
      then show ?thesis by (simp add: map_fst_kids map_fst_kids')
    next
      case False
      with p have "p \<in> V" by simp
      from b[OF this c] show ?thesis by auto
    qed
  qed
  from 1 2 show ?thesis unfolding inv_closed_def by blast
qed

lemma bfs_inv_step:
  assumes f: "forest K par C R" and i: "bfs_inv K par R (q, D)" and ne: "q \<noteq> []"
  shows "bfs_inv K par R (bfs_step C (q, D))"
proof -
  from ne obtain n d rest where q: "q = (n, d) # rest" by (cases q) auto
  from i q have s: "inv_struct K par ((n, d) # rest) (fst ` set D)"
    and l: "inv_lvl par ((n, d) # rest) D"
    and c: "inv_closed K par R ((n, d) # rest) (fst ` set D)"
    by (simp_all add: bfs_inv_def)
  show ?thesis
    unfolding q bfs_step_Cons bfs_inv_def fst_conv snd_conv keys_dict_set
    using inv_struct_step[OF f s] inv_lvl_step[OF f l] inv_closed_step[OF f c] by simp
qed

lemma bfs_inv_head_fresh:
  "bfs_inv K par R (q, D) \<Longrightarrow> q \<noteq> [] \<Longrightarrow> fst (hd q) \<notin> fst ` set D \<and> fst (hd q) \<in> K"
  by (cases q) (auto simp: bfs_inv_def inv_struct_def)

lemma bfs_inv_init:
  assumes f: "forest K par C R"
  shows "bfs_inv K par R (map (\<lambda>n. (n, 0)) R, [])"
proof -
  from f have r: "distinct R" "set R = {n \<in> K. par n = None}" by (auto simp: forest_def)
  have 1: "inv_struct K par (map (\<lambda>n. (n, 0)) R) {}"
    using r by (auto simp: inv_struct_def map_fst_kids map_fst_kids')
  have 2: "inv_lvl par (map (\<lambda>n. (n, 0)) R) []"
    using r by (auto simp: inv_lvl_def intro: lvl_root)
  have 3: "inv_closed K par R (map (\<lambda>n. (n, 0)) R) {}"
    by (auto simp: inv_closed_def map_fst_kids map_fst_kids')
  from 1 2 3 show ?thesis by (simp add: bfs_inv_def)
qed

lemma bfs_terminates:
  assumes f: "forest K par C R"
  shows "bfs_inv K par R st \<Longrightarrow> \<exists>D. bfs_loop C st = Some D \<and> bfs_inv K par R ([], D)"
proof (induction "card (K - fst ` set (snd st))" arbitrary: st rule: less_induct)
  case less
  obtain q D where st: "st = (q, D)" by (cases st)
  show ?case
  proof (cases "q = []")
    case True
    with less.prems st show ?thesis by (subst bfs_loop.simps) simp
  next
    case False
    then obtain n d rest where q: "q = (n, d) # rest" by (cases q) auto
    from less.prems st False have h: "n \<notin> fst ` set D" "n \<in> K"
      using bfs_inv_head_fresh[of K par R q D] q by auto
    from f have fin: "finite K" by (simp add: forest_def)
    have "K - insert n (fst ` set D) \<subset> K - fst ` set D" using h by blast
    with fin have m: "card (K - insert n (fst ` set D)) < card (K - fst ` set D)"
      by (intro psubset_card_mono) auto
    have i': "bfs_inv K par R (bfs_step C st)"
      using bfs_inv_step[OF f _ False] less.prems st by simp
    have "card (K - fst ` set (snd (bfs_step C st))) < card (K - fst ` set (snd st))"
      using m by (simp add: st q bfs_step_Cons keys_dict_set)
    from less.hyps[OF this i'] obtain D' where
      "bfs_loop C (bfs_step C st) = Some D'" "bfs_inv K par R ([], D')" by blast
    then show ?thesis using False st by (subst bfs_loop.simps) simp
  qed
qed

lemma bfs_inv_funpow:
  assumes f: "forest K par C R" and i: "bfs_inv K par R st"
  shows "bfs_inv K par R ((bfs_step C ^^ k) st)"
proof (induction k)
  case 0
  from i show ?case by simp
next
  case (Suc k)
  obtain q D where s: "(bfs_step C ^^ k) st = (q, D)" by (cases "(bfs_step C ^^ k) st")
  show ?case
  proof (cases "q = []")
    case True
    with Suc s show ?thesis by (simp add: bfs_step_Nil)
  next
    case False
    from bfs_inv_step[OF f _ False] Suc s show ?thesis by simp
  qed
qed

lemma bfs_final_depth:
  assumes f: "forest K par C R" and i: "bfs_inv K par R ([], D)"
  shows "lvl par n k \<Longrightarrow> n \<in> K \<Longrightarrow> map_of D n = Some (int k)"
proof (induction rule: lvl.induct)
  case (lvl_root n)
  with f have "n \<in> set R" by (simp add: forest_def)
  with i have "n \<in> fst ` set D" by (auto simp: bfs_inv_def inv_closed_def)
  then obtain d where d: "map_of D n = Some d"
    by (metis map_of_eq_None_iff not_Some_eq)
  with i obtain j where j: "d = int j" "lvl par n j" by (auto simp: bfs_inv_def inv_lvl_def)
  from lvl_fun[OF j(2) lvl.lvl_root[of par n, OF lvl_root.hyps]] j d show ?case by simp
next
  case (lvl_child n p k)
  from f lvl_child.hyps have pk: "p \<in> K" by (auto simp: forest_def)
  from lvl_child.IH[OF pk] have "p \<in> fst ` set D"
    by (metis map_of_eq_None_iff option.distinct(1))
  with i lvl_child.hyps lvl_child.prems have "n \<in> fst ` set D"
    by (auto simp: bfs_inv_def inv_closed_def)
  then obtain d where d: "map_of D n = Some d"
    by (metis map_of_eq_None_iff not_Some_eq)
  with i obtain j where j: "d = int j" "lvl par n j" by (auto simp: bfs_inv_def inv_lvl_def)
  from lvl_fun[OF j(2) lvl.lvl_child[of par n p k, OF lvl_child.hyps]] j d show ?case by simp
qed

lemma build_maps_sem:
  "\<exists>N P C. build_maps spans = (map tag spans, N, P, C)
     \<and> (\<forall>k. dict_contains N k \<longleftrightarrow> k \<in> set (kept_ids spans))
     \<and> map_of P = map_of (rev (links spans))
     \<and> (\<forall>p. map_of C p = (if p \<in> set (kept_ids spans) then Some (kids spans p) else None))
     \<and> set (map fst P) = set (kept_ids spans)
     \<and> distinct (map fst P)"
proof -
  obtain ts N C0 where n: "normalise (map (\<lambda>sp. \<lparr>raw = sp, node_id_key = None\<rparr>) spans) ([], []) = (ts, N, C0)"
    by (metis prod_cases3)
  obtain P C where l: "fold link_span (map tag spans) ([], C0) = (P, C)"
    by (cases "fold link_span (map tag spans) ([], C0)")
  from normalise_fresh[OF n] have ts: "ts = map tag spans"
    and N: "\<And>k. dict_contains N k \<longleftrightarrow> k \<in> set (kept_ids spans)"
    and C0: "\<And>k. map_of C0 k = (if k \<in> set (kept_ids spans) then Some [] else None)"
    by (auto simp: dict_contains_def)
  from link_fold[OF l] have P: "map_of P = map_of (rev (links spans))"
    and C: "\<And>p. map_of C p = (case map_of C0 p of None \<Rightarrow> None | Some l \<Rightarrow> Some (l @ kids spans p))"
    and k: "set (map fst P) = set (kept_ids spans)" and d: "distinct (map fst P)"
    by auto
  have b: "build_maps spans = (map tag spans, N, P, C)"
    using n l ts by (simp add: build_maps_def)
  have C': "\<And>p. map_of C p = (if p \<in> set (kept_ids spans) then Some (kids spans p) else None)"
    by (simp add: C C0)
  from b N P C' k d show ?thesis by blast
qed

lemma map_of_rev_distinct: "distinct (map fst xs) \<Longrightarrow> map_of (rev xs) = map_of xs"
  by (subst map_of_inject_set) (simp_all add: rev_map[symmetric])

lemma kept_ids_mem: "n \<in> set (kept_ids spans) \<longleftrightarrow> map_of (links spans) n \<noteq> None"
  by (simp add: kept_ids_def map_of_eq_None_iff)

lemma find_roots_set:
  assumes "distinct (map fst P)"
  shows "set (find_roots P N) =
     {n. \<exists>parent. map_of P n = Some parent \<and> (parent = None \<or> \<not> dict_contains N (the parent))}"
  using assms by (force simp: find_roots_def split: option.splits)

lemma find_roots_distinct: "distinct (map fst P) \<Longrightarrow> distinct (find_roots P N)"
  by (simp add: find_roots_def distinct_map_filter)

lemma parent_link_Some:
  "parent_link spans c = Some p \<longleftrightarrow>
     map_of (links spans) c = Some (Some p) \<and> p \<in> set (kept_ids spans)"
proof (cases "map_of (links spans) c")
  case None
  then show ?thesis by (simp add: parent_link_def)
next
  case (Some v)
  then show ?thesis by (cases v) (auto simp: parent_link_def)
qed

lemma forest_build:
  assumes d: "distinct (kept_ids spans)"
    and b: "build_maps spans = (ts, N, P, C)"
  shows "forest (set (kept_ids spans)) (parent_link spans) C (find_roots P N)"
proof -
  from build_maps_sem[of spans] obtain N' P' C' where s: "build_maps spans = (map tag spans, N', P', C')"
    "\<And>k. dict_contains N' k \<longleftrightarrow> k \<in> set (kept_ids spans)"
    "map_of P' = map_of (rev (links spans))"
    "\<And>p. map_of C' p = (if p \<in> set (kept_ids spans) then Some (kids spans p) else None)"
    "set (map fst P') = set (kept_ids spans)"
    "distinct (map fst P')"
    by blast
  from s(1) b have eq: "N' = N" "P' = P" "C' = C" by simp_all
  note N = s(2)[unfolded eq] and C = s(4)[unfolded eq] and dP = s(6)[unfolded eq]
  from d have dl: "distinct (map fst (links spans))" by (simp add: kept_ids_def)
  from s(3) dl have P: "map_of P = map_of (links spans)" by (simp add: eq map_of_rev_distinct)
  let ?K = "set (kept_ids spans)"
  have 1: "finite ?K" by simp
  have 2: "distinct (find_roots P N)" using dP by (rule find_roots_distinct)
  have 3: "set (find_roots P N) = {n \<in> ?K. parent_link spans n = None}"
  proof (rule set_eqI)
    fix n
    show "n \<in> set (find_roots P N) \<longleftrightarrow> n \<in> {n \<in> ?K. parent_link spans n = None}"
    proof (cases "map_of (links spans) n")
      case None
      then show ?thesis by (simp add: find_roots_set[OF dP] P kept_ids_mem)
    next
      case (Some v)
      then have k: "n \<in> ?K" by (simp add: kept_ids_mem)
      show ?thesis
      proof (cases v)
        case None
        with Some k show ?thesis by (simp add: find_roots_set[OF dP] P parent_link_def)
      next
        case (Some p)
        with \<open>map_of (links spans) n = Some v\<close> k show ?thesis
          by (simp add: find_roots_set[OF dP] P N parent_link_def)
      qed
    qed
  qed
  have kd: "\<And>p. distinct (kids spans p)"
    using dl by (simp add: kids_def distinct_map_filter)
  have ks: "\<And>p. set (kids spans p) = {c. map_of (links spans) c = Some (Some p)}"
    using dl by (force simp: kids_def)
  have 4: "\<forall>p. distinct (dict_get_or C p []) \<and>
      set (dict_get_or C p []) = {c \<in> ?K. parent_link spans c = Some p}"
  proof
    fix p
    show "distinct (dict_get_or C p []) \<and>
      set (dict_get_or C p []) = {c \<in> ?K. parent_link spans c = Some p}"
    proof (cases "p \<in> ?K")
      case True
      then have g: "dict_get_or C p [] = kids spans p" by (simp add: dict_get_or_def C)
      have "set (kids spans p) = {c \<in> ?K. parent_link spans c = Some p}"
        using True unfolding ks
        by (auto simp: parent_link_Some kept_ids_mem)
      with kd g show ?thesis by simp
    next
      case False
      then have g: "dict_get_or C p [] = []" by (simp add: dict_get_or_def C)
      have "{c \<in> ?K. parent_link spans c = Some p} = {}"
        using False by (auto simp: parent_link_Some)
      with g show ?thesis by simp
    qed
  qed
  have 5: "\<forall>n p. parent_link spans n = Some p \<longrightarrow> p \<in> ?K"
    by (simp add: parent_link_Some)
  from 1 2 3 4 5 show ?thesis unfolding forest_def by blast
qed

section \<open>Lemmas on the returned records and on the loop as a whole\<close>

lemma make_record_tag:
  "make_record P C D (tag sp) =
     (case node_id_of sp of
        None \<Rightarrow> None
      | Some n \<Rightarrow> Some \<lparr>node_id = n,
                    trace_id = traceId sp,
                    segment_id = segmentId sp,
                    span_id = spanId sp,
                    parent_span_id = parentSpanId sp,
                    parent_node_id = dict_get_or P n None,
                    service_code = serviceCode sp,
                    service_instance = serviceInstanceName sp,
                    start_ms = (case startTime sp of
                                  Missing \<Rightarrow> Some 0 | Null \<Rightarrow> None | Present t \<Rightarrow> Some t),
                    end_ms = (case endTime sp of
                                Missing \<Rightarrow> Some 0 | Null \<Rightarrow> None | Present t \<Rightarrow> Some t),
                    endpoint_name = endpointName sp,
                    span_type = spanType sp,
                    rec_peer = peer sp,
                    rec_component = component sp,
                    is_error = (case isError sp of None \<Rightarrow> False | Some b \<Rightarrow> b),
                    rec_layer = layer sp,
                    rec_tags = tags sp,
                    rec_logs = logs sp,
                    rec_refs = refs sp,
                    children_ids = dict_get_or C n [],
                    depth = dict_get_or D n 0\<rparr>)"
  by (auto simp: make_record_def tag_def truthy_def Let_def node_id_of_truthy split: option.splits)

lemma record_fields:
  "r \<in> set (List.map_filter (make_record P C D) (map tag spans)) \<Longrightarrow>
   node_id r \<in> set (kept_ids spans)
   \<and> parent_node_id r = dict_get_or P (node_id r) None
   \<and> children_ids r = dict_get_or C (node_id r) []
   \<and> depth r = dict_get_or D (node_id r) 0"
proof (induction spans)
  case Nil
  then show ?case by simp
next
  case (Cons sp spans)
  show ?case
  proof (cases "node_id_of sp")
    case None
    with Cons show ?thesis
      by (simp add: make_record_tag kept_ids_def links_Cons)
  next
    case (Some n)
    with Cons show ?thesis
      by (auto simp: make_record_tag kept_ids_def links_Cons)
  qed
qed

lemma record_ids:
  "map node_id (List.map_filter (make_record P C D) (map tag spans)) = kept_ids spans"
proof (induction spans)
  case Nil
  then show ?case by (simp add: kept_ids_def links_def)
next
  case (Cons sp spans)
  then show ?case
    by (cases "node_id_of sp")
       (simp_all add: make_record_tag kept_ids_def links_Cons)
qed

lemma build_result_shape:
  assumes "build_span_records spans = Some ((recs, roots), ts)"
  shows "\<exists>N P C D. build_maps spans = (map tag spans, N, P, C)
     \<and> (\<forall>k. dict_contains N k \<longleftrightarrow> k \<in> set (kept_ids spans))
     \<and> map_of P = map_of (rev (links spans))
     \<and> (\<forall>p. map_of C p = (if p \<in> set (kept_ids spans) then Some (kids spans p) else None))
     \<and> set (map fst P) = set (kept_ids spans)
     \<and> distinct (map fst P)
     \<and> bfs_loop C (map (\<lambda>n. (n, 0)) (find_roots P N), []) = Some D
     \<and> recs = List.map_filter (make_record P C D) (map tag spans)
     \<and> roots = find_roots P N
     \<and> ts = map tag spans"
proof -
  from build_maps_sem[of spans] obtain N P C where
    b: "build_maps spans = (map tag spans, N, P, C)"
    and s: "\<forall>k. dict_contains N k \<longleftrightarrow> k \<in> set (kept_ids spans)"
      "map_of P = map_of (rev (links spans))"
      "\<forall>p. map_of C p = (if p \<in> set (kept_ids spans) then Some (kids spans p) else None)"
      "set (map fst P) = set (kept_ids spans)"
      "distinct (map fst P)"
    by blast
  let ?init = "(map (\<lambda>n. (n, 0)) (find_roots P N), [])"
  from assms b have e: "(case bfs_loop C ?init of None \<Rightarrow> None
      | Some depths \<Rightarrow> Some ((List.map_filter (make_record P C depths) (map tag spans),
                                find_roots P N), map tag spans)) = Some ((recs, roots), ts)"
    by (simp add: build_span_records_def Let_def)
  then obtain D where D: "bfs_loop C ?init = Some D"
    by (cases "bfs_loop C ?init") simp_all
  with e have "recs = List.map_filter (make_record P C D) (map tag spans)"
    "roots = find_roots P N" "ts = map tag spans"
    by auto
  with b s D show ?thesis by blast
qed

lemma in_set_updateD: "x \<in> set (AList.update k v al) \<Longrightarrow> x = (k, v) \<or> x \<in> set al"
  by (induction al) (auto split: if_splits)

lemma bfs_nonneg:
  assumes "bfs_loop C st = Some D"
  shows "(\<forall>x\<in>set (fst st). 0 \<le> snd x) \<and> (\<forall>x\<in>set (snd st). 0 \<le> snd x)
         \<longrightarrow> (\<forall>x\<in>set D. 0 \<le> snd x)"
  using assms
proof (rule bfs_loop.raw_induct[rotated,
    where P="\<lambda>C st D. (\<forall>x\<in>set (fst st). 0 \<le> snd x) \<and> (\<forall>x\<in>set (snd st). 0 \<le> snd x)
         \<longrightarrow> (\<forall>x\<in>set D. 0 \<le> snd x)"], goal_cases)
  case (1 f C st D)
  obtain q D0 where st: "st = (q, D0)" by (cases st)
  show ?case
  proof (intro impI)
    assume a: "(\<forall>x\<in>set (fst st). 0 \<le> snd x) \<and> (\<forall>x\<in>set (snd st). 0 \<le> snd x)"
    show "\<forall>x\<in>set D. 0 \<le> snd x"
    proof (cases q)
      case Nil
      with 1(2) st a show ?thesis by simp
    next
      case (Cons item rest)
      obtain n d where item: "item = (n, d)" by (cases item)
      from a st Cons item have d: "0 \<le> d" and r: "\<forall>x\<in>set rest. 0 \<le> snd x"
        and o: "\<forall>x\<in>set D0. 0 \<le> snd x" by auto
      have u: "\<forall>x\<in>set (dict_set D0 n d). 0 \<le> snd x"
        using d o by (auto simp: dict_set_def dest!: in_set_updateD)
      from 1(2) st Cons item have "f C (bfs_step C st) = Some D" by simp
      from 1(1)[OF this] st Cons item d r u show ?thesis
        by (auto simp: bfs_step_Cons)
    qed
  qed
qed

lemma build_distinct:
  assumes d: "distinct (kept_ids spans)"
  shows "\<exists>N P C D. build_maps spans = (map tag spans, N, P, C)
     \<and> forest (set (kept_ids spans)) (parent_link spans) C (find_roots P N)
     \<and> bfs_loop C (map (\<lambda>n. (n, 0)) (find_roots P N), []) = Some D
     \<and> bfs_inv (set (kept_ids spans)) (parent_link spans) (find_roots P N) ([], D)
     \<and> build_span_records spans =
         Some ((List.map_filter (make_record P C D) (map tag spans), find_roots P N),
               map tag spans)"
proof -
  from build_maps_sem[of spans] obtain N P C where
    b: "build_maps spans = (map tag spans, N, P, C)" by blast
  note f = forest_build[OF d b]
  from bfs_terminates[OF f bfs_inv_init[OF f]] obtain D where
    D: "bfs_loop C (map (\<lambda>n. (n, 0)) (find_roots P N), []) = Some D"
    and i: "bfs_inv (set (kept_ids spans)) (parent_link spans) (find_roots P N) ([], D)"
    by blast
  have "build_span_records spans =
         Some ((List.map_filter (make_record P C D) (map tag spans), find_roots P N),
               map tag spans)"
    using b D by (simp add: build_span_records_def Let_def)
  with b f D i show ?thesis by blast
qed

lemma dict_get_or_Some: "map_of d k = Some v \<Longrightarrow> dict_get_or d k dflt = v"
  by (simp add: dict_get_or_def)

lemma in_keys_map_of: "k \<in> set (map fst d) \<Longrightarrow> \<exists>v. map_of d k = Some v"
  by (metis map_of_eq_None_iff not_Some_eq set_map)

lemma hops_lvl: "hops par n r k \<Longrightarrow> par r = None \<Longrightarrow> lvl par n k"
  by (induction rule: hops.induct) (auto intro: lvl.intros)

lemma distinct_set_singleton:
  assumes "distinct xs" and "set xs = {a}"
  shows "xs = [a]"
proof (cases xs)
  case Nil
  with assms show ?thesis by simp
next
  case (Cons x ys)
  with assms have x: "x = a" and "set ys \<subseteq> {a}" and "x \<notin> set ys" by auto
  then have "set ys = {}" by (auto simp: subset_singleton_iff)
  then have "ys = []" by simp
  with Cons x show ?thesis by simp
qed

lemma with_known_parent_iff:
  "c \<in> with_known_parent recs \<longleftrightarrow>
     (\<exists>r\<in>set recs. node_id r = c \<and> (\<exists>p. parent_node_id r = Some p \<and> p \<in> node_id ` set recs))"
proof
  assume "c \<in> with_known_parent recs"
  then obtain r where r: "r \<in> set recs" "node_id r = c"
    "case parent_node_id r of None \<Rightarrow> False | Some p \<Rightarrow> p \<in> set (map node_id recs)"
    unfolding with_known_parent_def by auto
  from r(3) have "\<exists>p. parent_node_id r = Some p \<and> p \<in> node_id ` set recs"
    by (cases "parent_node_id r") simp_all
  with r(1,2) show "\<exists>r\<in>set recs. node_id r = c \<and>
      (\<exists>p. parent_node_id r = Some p \<and> p \<in> node_id ` set recs)" by blast
next
  assume "\<exists>r\<in>set recs. node_id r = c \<and>
      (\<exists>p. parent_node_id r = Some p \<and> p \<in> node_id ` set recs)"
  then obtain r p where r: "r \<in> set recs" "node_id r = c" "parent_node_id r = Some p"
    "p \<in> node_id ` set recs" by blast
  then have "r \<in> set (filter (\<lambda>r. case parent_node_id r of None \<Rightarrow> False
      | Some p \<Rightarrow> p \<in> set (map node_id recs)) recs)" by simp
  then have "node_id r \<in> with_known_parent recs"
    unfolding with_known_parent_def set_map by (rule imageI)
  with r(2) show "c \<in> with_known_parent recs" by simp
qed

lemma single_rooted_tree:
  assumes d: "distinct (kept_ids spans)"
    and r: "r \<in> set (kept_ids spans)"
    and one: "\<forall>n\<in>set (kept_ids spans). parent_link spans n = None \<longleftrightarrow> n = r"
    and reach: "\<forall>n\<in>set (kept_ids spans). \<exists>k. hops (parent_link spans) n r k"
  shows "\<exists>recs ts. build_span_records spans = Some ((recs, [r]), ts)
     \<and> map node_id recs = kept_ids spans
     \<and> (\<forall>rec\<in>set recs. (\<exists>k. hops (parent_link spans) (node_id rec) r k)
            \<and> (\<forall>k. hops (parent_link spans) (node_id rec) r k \<longrightarrow> depth rec = int k))"
proof -
  let ?K = "set (kept_ids spans)" and ?par = "parent_link spans"
  from build_distinct[OF d] obtain N P C D where
    f: "forest ?K ?par C (find_roots P N)"
    and i: "bfs_inv ?K ?par (find_roots P N) ([], D)"
    and b: "build_span_records spans =
         Some ((List.map_filter (make_record P C D) (map tag spans), find_roots P N),
               map tag spans)"
    by blast
  let ?recs = "List.map_filter (make_record P C D) (map tag spans)"
  from f have "distinct (find_roots P N)" "set (find_roots P N) = {n \<in> ?K. ?par n = None}"
    by (simp_all add: forest_def)
  moreover have "{n \<in> ?K. ?par n = None} = {r}"
  proof (intro equalityI subsetI)
    fix n assume "n \<in> {n \<in> ?K. ?par n = None}"
    then have n: "n \<in> ?K" "?par n = None" by simp_all
    from bspec[OF one n(1)] n(2) show "n \<in> {r}" by simp
  next
    fix n assume "n \<in> {r}"
    then have "n = r" by simp
    with bspec[OF one r] r show "n \<in> {n \<in> ?K. ?par n = None}" by simp
  qed
  ultimately have roots: "find_roots P N = [r]"
    by (simp add: distinct_set_singleton)
  from bspec[OF one r] have pr: "?par r = None" by simp
  have "(\<exists>k. hops ?par (node_id rec) r k)
      \<and> (\<forall>k. hops ?par (node_id rec) r k \<longrightarrow> depth rec = int k)" if "rec \<in> set ?recs" for rec
  proof -
    from record_fields[OF that] have k: "node_id rec \<in> ?K"
      and dr: "depth rec = dict_get_or D (node_id rec) 0" by simp_all
    from reach k obtain j where h: "hops ?par (node_id rec) r j" by blast
    have "depth rec = int m" if m: "hops ?par (node_id rec) r m" for m
      using bfs_final_depth[OF f i hops_lvl[OF m pr] k] dr by (simp add: dict_get_or_def)
    with h show ?thesis by blast
  qed
  with b roots record_ids[of P C D spans] show ?thesis
    by (intro exI[of _ ?recs] exI[of _ "map tag spans"]) simp
qed

lemma record_links:
  assumes d: "distinct (kept_ids spans)"
    and P: "map_of P = map_of (rev (links spans))"
  shows "map (\<lambda>c. (node_id c, parent_node_id c))
           (List.map_filter (make_record P C D) (map tag spans)) = links spans"
proof -
  let ?recs = "List.map_filter (make_record P C D) (map tag spans)"
  from d have dl: "distinct (map fst (links spans))" by (simp add: kept_ids_def)
  with P have P': "map_of P = map_of (links spans)" by (simp add: map_of_rev_distinct)
  have "map (\<lambda>c. (node_id c, parent_node_id c)) ?recs
      = map (\<lambda>c. (node_id c, dict_get_or P (node_id c) None)) ?recs"
    by (rule map_cong[OF refl]) (simp add: record_fields)
  also have "\<dots> = map (\<lambda>n. (n, dict_get_or P n None)) (map node_id ?recs)"
    by (simp add: comp_def)
  also have "\<dots> = map (\<lambda>n. (n, dict_get_or P n None)) (map fst (links spans))"
    by (simp only: record_ids kept_ids_def)
  also have "\<dots> = map (\<lambda>l. (fst l, dict_get_or P (fst l) None)) (links spans)"
    by (simp add: comp_def)
  also have "\<dots> = links spans"
  proof (rule map_idI)
    fix l
    assume "l \<in> set (links spans)"
    then have "(fst l, snd l) \<in> set (links spans)" by simp
    with dl have "map_of (links spans) (fst l) = Some (snd l)" by (rule map_of_is_SomeI)
    then show "(fst l, dict_get_or P (fst l) None) = l"
      by (simp add: dict_get_or_def P')
  qed
  finally show ?thesis .
qed

lemma children_exact:
  assumes d: "distinct (kept_ids spans)"
    and b: "build_span_records spans = Some ((recs, roots), ts)"
    and r: "r \<in> set recs"
  shows "children_ids r = inverted_parents recs (node_id r)"
proof -
  from build_result_shape[OF b] obtain N P C D where
    P: "map_of P = map_of (rev (links spans))"
    and C: "\<forall>p. map_of C p = (if p \<in> set (kept_ids spans) then Some (kids spans p) else None)"
    and recs: "recs = List.map_filter (make_record P C D) (map tag spans)"
    by blast
  from r recs record_fields[of r P C D spans]
  have k: "node_id r \<in> set (kept_ids spans)"
    and c: "children_ids r = dict_get_or C (node_id r) []" by simp_all
  from C k have "map_of C (node_id r) = Some (kids spans (node_id r))" by simp
  with c have 1: "children_ids r = kids spans (node_id r)" by (simp add: dict_get_or_def)
  have "inverted_parents recs (node_id r)
      = map fst (filter (\<lambda>l. snd l = Some (node_id r))
          (map (\<lambda>c. (node_id c, parent_node_id c)) recs))"
    by (simp add: inverted_parents_def filter_map comp_def)
  also have "\<dots> = kids spans (node_id r)"
    unfolding recs record_links[OF d P] by (simp add: kids_def)
  finally show ?thesis using 1 by simp
qed

section \<open>The concrete inputs, evaluated\<close>

lemmas eval_defs =
  build_span_records_def build_maps_def mk_span_def mk_ref_def normalise_span_def link_span_def
  make_node_id_def fmt_str_def fmt_int_def str_int_def str_nat.simps dict_set_def
  dict_setdefault_def dict_contains_def resolve_parent_def truthy_def dict_append_def
  dict_get_or_def find_roots_def bfs_step_def make_record_def List.map_filter_def Let_def
  node_id_of_def links_def kept_ids_def parent_link_def record_view_def build_view_def
  records_of_def

lemma example_ids: "kept_ids example_spans = [''A:0'', ''A:1'', ''B:0'']"
  by (simp add: example_spans_def eval_defs)

lemma example_links:
  "parent_link example_spans ''A:0'' = None"
  "parent_link example_spans ''A:1'' = Some ''A:0''"
  "parent_link example_spans ''B:0'' = Some ''A:1''"
  by (simp_all add: example_spans_def eval_defs)

lemma example_view:
  "build_view example_spans =
     Some ([(''A:0'', None, 0, [''A:1'']), (''A:1'', Some ''A:0'', 1, [''B:0'']),
            (''B:0'', Some ''A:1'', 2, [])], [''A:0''])"
  by (simp add: example_spans_def eval_defs bfs_loop.simps)

lemma cycle_ids: "kept_ids cycle_spans = [''A:0'', ''A:1'', ''B:0'', ''B:1'']"
  by (simp add: cycle_spans_def eval_defs)

lemma cycle_view:
  "build_view cycle_spans =
     Some ([(''A:0'', Some ''A:1'', 0, [''A:1'']), (''A:1'', Some ''A:0'', 0, [''A:0'']),
            (''B:0'', None, 0, [''B:1'']), (''B:1'', Some ''B:0'', 1, [])], [''B:0''])"
  by (simp add: cycle_spans_def eval_defs bfs_loop.simps)

lemma dangling_view:
  "build_view dangling_spans = Some ([(''A:1'', Some ''A:0'', 0, [])], [''A:1''])"
  by (simp add: dangling_spans_def eval_defs bfs_loop.simps)

lemma twin_view:
  "build_view twin_spans = Some ([(''A:0'', None, 0, []), (''A:0'', None, 0, [])], [''A:0''])"
  by (simp add: twin_spans_def eval_defs bfs_loop.simps)

lemma dup_view:
  "build_view dup_spans =
     Some ([(''A:0'', None, 0, [''A:1'']), (''A:1'', None, 1, []), (''A:1'', None, 1, [])],
           [''A:0'', ''A:1''])"
  by (simp add: dup_spans_def eval_defs bfs_loop.simps)

lemma build_view_SomeE:
  assumes "build_view spans = Some (v, rs)"
  obtains recs ts where "build_span_records spans = Some ((recs, rs), ts)"
    and "map record_view recs = v" and "records_of spans = recs"
  using assms by (auto simp: build_view_def records_of_def split: option.splits)

lemma never_ends:
  assumes "bfs_loop C st = Some D"
  shows "C = [(''A:0'', [''A:0''])] \<longrightarrow> (\<forall>d D0. st \<noteq> ([(''A:0'', d)], D0))"
  using assms
proof (rule bfs_loop.raw_induct[rotated,
    where P="\<lambda>C st D. C = [(''A:0'', [''A:0''])] \<longrightarrow> (\<forall>d D0. st \<noteq> ([(''A:0'', d)], D0))"],
    goal_cases)
  case (1 f C st D)
  show ?case
  proof (intro impI allI notI)
    fix d D0
    assume C: "C = [(''A:0'', [''A:0''])]" and st: "st = ([(''A:0'', d)], D0)"
    have s: "bfs_step C st = ([(''A:0'', d + 1)], dict_set D0 ''A:0'' d)"
      by (simp add: st C bfs_step_def dict_get_or_def Let_def)
    from 1(2) st have "f C (bfs_step C st) = Some D" by simp
    from 1(1)[OF this] s C show False by simp
  qed
qed

section \<open>Termination and single assignment of depths\<close>

text \<open>
  C1, as amended. When no two kept raw spans have the same node identifier,
  \<^verbatim>\<open>_build_span_records\<close> returns, and in every pass of the breadth-first loop the node
  taken from the queue has no depth yet: each node identifier is assigned a depth at
  most once. Nothing is assumed about the parent links, which may form a cycle; the
  nodes of a cycle are then not reachable from a root and are never queued. The loop
  has no visited set, so with two spans of one node identifier neither holds in
  general.
\<close>

theorem build_terminates_distinct:
  assumes d: "distinct (kept_ids spans)"
  shows "build_span_records spans \<noteq> None
     \<and> (\<forall>k. fst (bfs_run spans k) \<noteq> [] \<longrightarrow>
            fst (hd (fst (bfs_run spans k))) \<notin> fst ` set (snd (bfs_run spans k)))"
proof -
  let ?K = "set (kept_ids spans)" and ?par = "parent_link spans"
  from build_distinct[OF d] obtain N P C D where
    bm: "build_maps spans = (map tag spans, N, P, C)"
    and f: "forest ?K ?par C (find_roots P N)"
    and b: "build_span_records spans =
         Some ((List.map_filter (make_record P C D) (map tag spans), find_roots P N),
               map tag spans)"
    by blast
  have "fst (hd (fst (bfs_run spans k))) \<notin> fst ` set (snd (bfs_run spans k))"
    if "fst (bfs_run spans k) \<noteq> []" for k
  proof -
    let ?st = "(bfs_step C ^^ k) (map (\<lambda>n. (n, 0)) (find_roots P N), [])"
    have run: "bfs_run spans k = ?st" by (simp add: bfs_run_def bm)
    have "bfs_inv ?K ?par (find_roots P N) ?st"
      by (rule bfs_inv_funpow[OF f bfs_inv_init[OF f]])
    then have "bfs_inv ?K ?par (find_roots P N) (fst ?st, snd ?st)" by simp
    from bfs_inv_head_fresh[OF this] that run show ?thesis by simp
  qed
  with b show ?thesis by simp
qed

text \<open>
  The theorem at the input \<open>cycle_spans\<close>: four distinct node identifiers, two of them on
  a cycle.
\<close>

theorem build_terminates_distinct_witness:
  "distinct (kept_ids cycle_spans) \<and> build_span_records cycle_spans \<noteq> None
   \<and> fst (bfs_run cycle_spans 0) \<noteq> []
   \<and> fst (hd (fst (bfs_run cycle_spans 0))) \<notin> fst ` set (snd (bfs_run cycle_spans 0))"
proof -
  have d: "distinct (kept_ids cycle_spans)" by (simp add: cycle_ids)
  have q: "fst (bfs_run cycle_spans 0) \<noteq> []"
    by (simp add: bfs_run_def cycle_spans_def eval_defs)
  from build_terminates_distinct[OF d] d q show ?thesis by blast
qed

text \<open>
  C1 as stated fails: on \<open>self_loop_spans\<close> the second span makes \<^verbatim>\<open>A:0\<close> a root and the
  first one makes it its own child, so the loop queues \<^verbatim>\<open>A:0\<close> again in every pass and
  the call never returns.
\<close>

theorem self_loop_never_returns: "build_span_records self_loop_spans = None"
proof (cases "build_span_records self_loop_spans")
  case None
  then show ?thesis .
next
  case (Some r)
  then obtain D where "bfs_loop [(''A:0'', [''A:0''])] ([(''A:0'', 0)], []) = Some D"
    by (simp add: self_loop_spans_def eval_defs split: option.splits)
  from never_ends[OF this] show ?thesis by simp
qed

section \<open>Parent resolution\<close>

text \<open>
  C2, as amended. For a kept raw span, stage 2 records as its parent: the span's own
  segment identifier, a colon and \<^verbatim>\<open>parentSpanId\<close> when that is an integer and not
  negative; otherwise, when the span has a reference, the node identifier made of the
  first reference's parent segment and parent span, provided both are present, and no
  parent when either is missing; otherwise no parent. References after the first do not
  change the result.
\<close>

theorem parent_resolution_order:
  assumes "node_id_of sp = Some n"
  shows "map_of (fst (link_span (tag sp) (P, C))) n = Some (resolve_parent sp)
     \<and> resolve_parent sp =
         (if parentSpanId sp \<noteq> None \<and> 0 \<le> the (parentSpanId sp)
          then Some (the (segmentId sp) @ '':'' @ str_int (the (parentSpanId sp)))
          else case refs sp of
                 [] \<Rightarrow> None
               | ref # others \<Rightarrow>
                   (case (ref_parent_segment_id ref, ref_parent_span_id ref) of
                      (Some seg, Some k) \<Rightarrow> Some (seg @ '':'' @ str_int k)
                    | _ \<Rightarrow> None))
     \<and> resolve_parent (sp\<lparr>refs := take 1 (refs sp)\<rparr>) = resolve_parent sp"
proof -
  from assms obtain seg where seg: "segmentId sp = Some seg"
    by (auto simp: node_id_of_def split: if_splits)
  have 1: "map_of (fst (link_span (tag sp) (P, C))) n = Some (resolve_parent sp)"
    using assms by (simp add: link_span_tag_Some map_of_dict_set)
  have 2: "resolve_parent sp =
         (if parentSpanId sp \<noteq> None \<and> 0 \<le> the (parentSpanId sp)
          then Some (the (segmentId sp) @ '':'' @ str_int (the (parentSpanId sp)))
          else case refs sp of
                 [] \<Rightarrow> None
               | ref # others \<Rightarrow>
                   (case (ref_parent_segment_id ref, ref_parent_span_id ref) of
                      (Some seg, Some k) \<Rightarrow> Some (seg @ '':'' @ str_int k)
                    | _ \<Rightarrow> None))"
    using seg
    by (auto simp: resolve_parent_def make_node_id_def fmt_str_def fmt_int_def Let_def
        split: list.splits option.splits)
  have 3: "resolve_parent (sp\<lparr>refs := take 1 (refs sp)\<rparr>) = resolve_parent sp"
    by (cases "refs sp") (simp_all add: resolve_parent_def Let_def)
  from 1 2 3 show ?thesis by blast
qed

text \<open>
  The theorem at the third span of the example, whose parent comes from its reference.
\<close>

theorem parent_resolution_order_witness:
  "node_id_of (last example_spans) = Some ''B:0''
   \<and> map_of (fst (link_span (tag (last example_spans)) ([], []))) ''B:0'' = Some (Some ''A:1'')
   \<and> resolve_parent (last example_spans) = Some ''A:1''"
proof -
  have n: "node_id_of (last example_spans) = Some ''B:0''"
    by (simp add: example_spans_def eval_defs)
  have r: "resolve_parent (last example_spans) = Some ''A:1''"
    by (simp add: example_spans_def eval_defs)
  from parent_resolution_order[OF n, of "[]" "[]"] n r show ?thesis by simp
qed

text \<open>
  C2 as stated fails: \<open>ref_without_segment\<close> is kept, has no \<^verbatim>\<open>parentSpanId\<close> and has a
  reference, yet its resolved parent is absent, because the reference has no parent
  segment.
\<close>

theorem first_ref_without_segment:
  "node_id_of ref_without_segment = Some ''B:0'' \<and> parentSpanId ref_without_segment = None
   \<and> refs ref_without_segment = [mk_ref None (Some 1)]
   \<and> resolve_parent ref_without_segment = None"
  by (simp add: ref_without_segment_def eval_defs)

section \<open>The root list\<close>

text \<open>
  C3. The returned root list holds, each once, exactly the node identifiers of the
  returned records whose \<^verbatim>\<open>parent_node_id\<close> is null or is not the identifier of a returned
  record; so a record with a dangling parent is in the root list although its
  \<^verbatim>\<open>parent_node_id\<close> is not null.
\<close>

theorem roots_are_parentless:
  assumes "build_span_records spans = Some ((recs, roots), ts)"
  shows "set roots = parentless recs \<and> distinct roots
     \<and> (\<forall>r\<in>set recs. \<forall>p. parent_node_id r = Some p \<and> p \<notin> set (map node_id recs)
            \<longrightarrow> node_id r \<in> set roots)"
proof -
  from build_result_shape[OF assms] obtain N P C D where
    N: "\<forall>k. dict_contains N k \<longleftrightarrow> k \<in> set (kept_ids spans)"
    and K: "set (map fst P) = set (kept_ids spans)"
    and dP: "distinct (map fst P)"
    and recs: "recs = List.map_filter (make_record P C D) (map tag spans)"
    and roots: "roots = find_roots P N"
    by blast
  have ids: "set (map node_id recs) = set (kept_ids spans)" by (simp add: recs record_ids)
  have par: "map_of P (node_id r) = Some (parent_node_id r)" if "r \<in> set recs" for r
  proof -
    from that recs record_fields[of r P C D spans]
    have k: "node_id r \<in> set (kept_ids spans)"
      and p: "parent_node_id r = dict_get_or P (node_id r) None" by simp_all
    from k K in_keys_map_of[of "node_id r" P] obtain v where "map_of P (node_id r) = Some v"
      by auto
    with p show ?thesis by (simp add: dict_get_or_def)
  qed
  have 1: "set roots = parentless recs"
  proof (rule set_eqI)
    fix n
    show "n \<in> set roots \<longleftrightarrow> n \<in> parentless recs"
    proof
      assume "n \<in> set roots"
      with roots find_roots_set[OF dP, of N] obtain parent where
        m: "map_of P n = Some parent" and c: "parent = None \<or> \<not> dict_contains N (the parent)"
        by auto
      from m have "n \<in> set (map fst P)" by (metis map_of_eq_None_iff option.distinct(1) set_map)
      with K ids have "n \<in> node_id ` set recs" by simp
      then obtain r where r: "r \<in> set recs" "node_id r = n" by blast
      from par[OF r(1)] r(2) m have "parent_node_id r = parent" by simp
      with c N ids have "case parent_node_id r of None \<Rightarrow> True
                         | Some p \<Rightarrow> p \<notin> set (map node_id recs)"
        by (auto split: option.splits)
      with r show "n \<in> parentless recs" by (force simp: parentless_def)
    next
      assume "n \<in> parentless recs"
      then obtain r where r: "r \<in> set recs" "node_id r = n"
        and c: "case parent_node_id r of None \<Rightarrow> True | Some p \<Rightarrow> p \<notin> set (map node_id recs)"
        by (auto simp: parentless_def)
      from c N ids have "parent_node_id r = None \<or> \<not> dict_contains N (the (parent_node_id r))"
        by (auto split: option.splits)
      with par[OF r(1)] r(2) show "n \<in> set roots"
        unfolding roots find_roots_set[OF dP] by blast
    qed
  qed
  have 2: "distinct roots" unfolding roots using dP by (rule find_roots_distinct)
  have 3: "\<forall>r\<in>set recs. \<forall>p. parent_node_id r = Some p \<and> p \<notin> set (map node_id recs)
            \<longrightarrow> node_id r \<in> set roots"
    unfolding 1 by (force simp: parentless_def)
  from 1 2 3 show ?thesis by blast
qed

text \<open>
  The theorem at \<open>dangling_spans\<close>: the span \<^verbatim>\<open>A:1\<close> keeps the parent \<^verbatim>\<open>A:0\<close>, which is no
  node, and is the root.
\<close>

theorem roots_are_parentless_witness:
  "build_view dangling_spans = Some ([(''A:1'', Some ''A:0'', 0, [])], [''A:1''])
   \<and> parentless (records_of dangling_spans) = {''A:1''}"
proof -
  obtain recs ts where
    b: "build_span_records dangling_spans = Some ((recs, [''A:1'']), ts)"
    and v: "map record_view recs = [(''A:1'', Some ''A:0'', 0, [])]"
    and r: "records_of dangling_spans = recs"
    by (rule build_view_SomeE[OF dangling_view])
  from roots_are_parentless[OF b] have "parentless recs = {''A:1''}" by simp
  with r dangling_view show ?thesis by simp
qed

section \<open>Depths in a single rooted tree\<close>

text \<open>
  C4. When the kept spans have distinct node identifiers, exactly one of them, \<open>r\<close>, has
  no parent link and every one reaches \<open>r\<close> along parent links, the call returns the root
  list \<open>[r]\<close> and one record per kept span, whose depth is the number of parent links
  from its node to \<open>r\<close>. On the three spans of the example it returns \<^verbatim>\<open>A:0\<close> at depth 0
  without parent, \<^verbatim>\<open>A:1\<close> at depth 1 under \<^verbatim>\<open>A:0\<close>, \<^verbatim>\<open>B:0\<close> at depth 2 under \<^verbatim>\<open>A:1\<close>, and the
  root list \<^verbatim>\<open>["A:0"]\<close>.
\<close>

theorem single_rooted_tree_depths:
  "(\<forall>spans r.
      distinct (kept_ids spans) \<and> r \<in> set (kept_ids spans)
      \<and> (\<forall>n\<in>set (kept_ids spans). parent_link spans n = None \<longleftrightarrow> n = r)
      \<and> (\<forall>n\<in>set (kept_ids spans). \<exists>k. hops (parent_link spans) n r k)
      \<longrightarrow> (\<exists>recs ts. build_span_records spans = Some ((recs, [r]), ts)
             \<and> map node_id recs = kept_ids spans
             \<and> (\<forall>rec\<in>set recs. (\<exists>k. hops (parent_link spans) (node_id rec) r k)
                    \<and> (\<forall>k. hops (parent_link spans) (node_id rec) r k \<longrightarrow> depth rec = int k))))
   \<and> build_view example_spans =
        Some ([(''A:0'', None, 0, [''A:1'']), (''A:1'', Some ''A:0'', 1, [''B:0'']),
               (''B:0'', Some ''A:1'', 2, [])], [''A:0''])"
proof (intro conjI allI impI)
  fix spans r
  assume a: "distinct (kept_ids spans) \<and> r \<in> set (kept_ids spans)
      \<and> (\<forall>n\<in>set (kept_ids spans). parent_link spans n = None \<longleftrightarrow> n = r)
      \<and> (\<forall>n\<in>set (kept_ids spans). \<exists>k. hops (parent_link spans) n r k)"
  show "\<exists>recs ts. build_span_records spans = Some ((recs, [r]), ts)
             \<and> map node_id recs = kept_ids spans
             \<and> (\<forall>rec\<in>set recs. (\<exists>k. hops (parent_link spans) (node_id rec) r k)
                    \<and> (\<forall>k. hops (parent_link spans) (node_id rec) r k \<longrightarrow> depth rec = int k))"
    by (rule single_rooted_tree) (simp_all add: a)
next
  show "build_view example_spans =
        Some ([(''A:0'', None, 0, [''A:1'']), (''A:1'', Some ''A:0'', 1, [''B:0'']),
               (''B:0'', Some ''A:1'', 2, [])], [''A:0''])"
    by (rule example_view)
qed

text \<open>
  The general part of the theorem at the example's three spans and the root \<^verbatim>\<open>A:0\<close>.
\<close>

theorem single_rooted_tree_depths_witness:
  "distinct (kept_ids example_spans) \<and> ''A:0'' \<in> set (kept_ids example_spans)
   \<and> hops (parent_link example_spans) ''B:0'' ''A:0'' 2
   \<and> (\<exists>recs ts. build_span_records example_spans = Some ((recs, [''A:0'']), ts)
         \<and> map node_id recs = [''A:0'', ''A:1'', ''B:0'']
         \<and> list_all (\<lambda>rec. hops (parent_link example_spans) (node_id rec) ''A:0''
                            (nat (depth rec))) recs)"
proof -
  let ?par = "parent_link example_spans"
  have d: "distinct (kept_ids example_spans)" and m: "''A:0'' \<in> set (kept_ids example_spans)"
    by (simp_all add: example_ids)
  have one: "\<forall>n\<in>set (kept_ids example_spans). ?par n = None \<longleftrightarrow> n = ''A:0''"
    by (simp add: example_ids example_links)
  have h0: "hops ?par ''A:0'' ''A:0'' 0" by (rule hops_here)
  have h1: "hops ?par ''A:1'' ''A:0'' 1"
    using hops_up[OF example_links(2) h0] by simp
  have h2: "hops ?par ''B:0'' ''A:0'' 2"
    using hops_up[OF example_links(3) h1] by (simp add: numeral_2_eq_2)
  have reach: "\<forall>n\<in>set (kept_ids example_spans). \<exists>k. hops ?par n ''A:0'' k"
  proof
    fix n assume "n \<in> set (kept_ids example_spans)"
    then consider "n = ''A:0''" | "n = ''A:1''" | "n = ''B:0''" by (auto simp: example_ids)
    then show "\<exists>k. hops ?par n ''A:0'' k"
    proof cases
      case 1 with h0 show ?thesis by (intro exI[of _ 0]) simp
    next
      case 2 with h1 show ?thesis by (intro exI[of _ 1]) simp
    next
      case 3 with h2 show ?thesis by (intro exI[of _ 2]) simp
    qed
  qed
  have hyp: "distinct (kept_ids example_spans) \<and> ''A:0'' \<in> set (kept_ids example_spans)
      \<and> (\<forall>n\<in>set (kept_ids example_spans). ?par n = None \<longleftrightarrow> n = ''A:0'')
      \<and> (\<forall>n\<in>set (kept_ids example_spans). \<exists>k. hops ?par n ''A:0'' k)"
    using d m one reach by (intro conjI)
  note t = single_rooted_tree_depths[THEN conjunct1, THEN spec, THEN spec, THEN mp, OF hyp]
  from t obtain recs ts where
    b: "build_span_records example_spans = Some ((recs, [''A:0'']), ts)"
    and ids: "map node_id recs = kept_ids example_spans"
    and dep: "\<forall>rec\<in>set recs. (\<exists>k. hops ?par (node_id rec) ''A:0'' k)
                    \<and> (\<forall>k. hops ?par (node_id rec) ''A:0'' k \<longrightarrow> depth rec = int k)"
    by (elim exE conjE) (rule that)
  have "hops ?par (node_id rec) ''A:0'' (nat (depth rec))" if "rec \<in> set recs" for rec
  proof -
    from bspec[OF dep that] obtain k where k: "hops ?par (node_id rec) ''A:0'' k"
      and e: "\<forall>k. hops ?par (node_id rec) ''A:0'' k \<longrightarrow> depth rec = int k" by (elim exE conjE)
    from e k have "depth rec = int k" by simp
    with k show ?thesis by simp
  qed
  then have l: "list_all (\<lambda>rec. hops ?par (node_id rec) ''A:0'' (nat (depth rec))) recs"
    by (simp add: list_all_iff)
  from ids have ids': "map node_id recs = [''A:0'', ''A:1'', ''B:0'']" by (simp add: example_ids)
  have "build_span_records example_spans = Some ((recs, [''A:0'']), ts)
         \<and> map node_id recs = [''A:0'', ''A:1'', ''B:0'']
         \<and> list_all (\<lambda>rec. hops ?par (node_id rec) ''A:0'' (nat (depth rec))) recs"
    using b ids' l by (intro conjI)
  then have "\<exists>recs ts. build_span_records example_spans = Some ((recs, [''A:0'']), ts)
         \<and> map node_id recs = [''A:0'', ''A:1'', ''B:0'']
         \<and> list_all (\<lambda>rec. hops ?par (node_id rec) ''A:0'' (nat (depth rec))) recs"
    by (intro exI)
  with d m h2 show ?thesis by (intro conjI)
qed

section \<open>Depths and identifiers of the returned records\<close>

text \<open>
  C5, as amended. Every returned record has a depth of at least 0, and the records carry
  the node identifiers of the kept spans in order; so no node identifier appears twice in
  the returned list when no two kept raw spans have the same node identifier.
\<close>

theorem records_depth_and_ids:
  assumes "build_span_records spans = Some ((recs, roots), ts)"
  shows "(\<forall>r\<in>set recs. 0 \<le> depth r)
     \<and> map node_id recs = kept_ids spans
     \<and> (distinct (kept_ids spans) \<longrightarrow> distinct (map node_id recs))"
proof -
  from build_result_shape[OF assms] obtain N P C D where
    D: "bfs_loop C (map (\<lambda>n. (n, 0)) (find_roots P N), []) = Some D"
    and recs: "recs = List.map_filter (make_record P C D) (map tag spans)"
    by blast
  from bfs_nonneg[OF D] have nn: "\<forall>x\<in>set D. 0 \<le> snd x" by simp
  have "0 \<le> depth r" if "r \<in> set recs" for r
  proof -
    from that recs record_fields[of r P C D spans]
    have dr: "depth r = dict_get_or D (node_id r) 0" by simp
    show ?thesis
    proof (cases "map_of D (node_id r)")
      case None
      with dr show ?thesis by (simp add: dict_get_or_def)
    next
      case (Some d)
      then have "(node_id r, d) \<in> set D" by (rule map_of_SomeD)
      with nn have "0 \<le> d" by auto
      with dr Some show ?thesis by (simp add: dict_get_or_def)
    qed
  qed
  moreover have "map node_id recs = kept_ids spans" by (simp add: recs record_ids)
  ultimately show ?thesis by simp
qed

text \<open>
  The theorem at the example's three spans.
\<close>

theorem records_depth_and_ids_witness:
  "distinct (kept_ids example_spans)
   \<and> build_span_records example_spans \<noteq> None
   \<and> list_all (\<lambda>r. 0 \<le> depth r) (records_of example_spans)
   \<and> distinct (map node_id (records_of example_spans))"
proof -
  have d: "distinct (kept_ids example_spans)" by (simp add: example_ids)
  obtain recs ts where
    b: "build_span_records example_spans = Some ((recs, [''A:0'']), ts)"
    and v: "map record_view recs = [(''A:0'', None, 0, [''A:1'']),
        (''A:1'', Some ''A:0'', 1, [''B:0'']), (''B:0'', Some ''A:1'', 2, [])]"
    and r: "records_of example_spans = recs"
    by (rule build_view_SomeE[OF example_view])
  from records_depth_and_ids[OF b] d
  have "list_all (\<lambda>r. 0 \<le> depth r) recs" "distinct (map node_id recs)"
    by (simp_all add: list_all_iff)
  with b d r show ?thesis by simp
qed

text \<open>
  C5 as stated fails: \<open>twin_spans\<close> holds one span twice, and the call returns two records
  with the node identifier \<^verbatim>\<open>A:0\<close>.
\<close>

theorem twin_spans_repeat_identifier:
  "build_view twin_spans = Some ([(''A:0'', None, 0, []), (''A:0'', None, 0, [])], [''A:0''])
   \<and> map node_id (records_of twin_spans) = [''A:0'', ''A:0'']
   \<and> \<not> distinct (map node_id (records_of twin_spans))"
proof -
  obtain recs ts where
    b: "build_span_records twin_spans = Some ((recs, [''A:0'']), ts)"
    and v: "map record_view recs = [(''A:0'', None, 0, []), (''A:0'', None, 0, [])]"
    and r: "records_of twin_spans = recs"
    by (rule build_view_SomeE[OF twin_view])
  have "map node_id recs = map fst (map record_view recs)"
    by (simp add: record_view_def comp_def)
  with v have "map node_id recs = [''A:0'', ''A:0'']" by simp
  with r twin_view show ?thesis by simp
qed

section \<open>Children as the inverse of parents\<close>

text \<open>
  C6, as amended. When no two kept raw spans have the same node identifier, the children
  map is the exact inversion of the resolved parent map: the \<^verbatim>\<open>children_node_ids\<close> of
  every returned record are the identifiers of the returned records whose
  \<^verbatim>\<open>parent_node_id\<close> is that record's identifier, each once and in the order of the
  records. So the union of the \<^verbatim>\<open>children_node_ids\<close> of the returned records is the set of
  the node identifiers whose \<^verbatim>\<open>parent_node_id\<close> is the identifier of a returned record.
\<close>

theorem children_invert_parents:
  assumes d: "distinct (kept_ids spans)"
    and b: "build_span_records spans = Some ((recs, roots), ts)"
  shows "all_children recs = with_known_parent recs
     \<and> (\<forall>r\<in>set recs. children_ids r = inverted_parents recs (node_id r))
     \<and> distinct (map node_id recs)"
proof -
  have inv: "\<forall>r\<in>set recs. children_ids r = inverted_parents recs (node_id r)"
    using children_exact[OF d b] by simp
  let ?K = "set (kept_ids spans)"
  from build_result_shape[OF b] obtain N P C D where
    bm: "build_maps spans = (map tag spans, N, P, C)"
    and P: "map_of P = map_of (rev (links spans))"
    and recs: "recs = List.map_filter (make_record P C D) (map tag spans)"
    by blast
  from forest_build[OF d bm] have
    ch: "\<And>p. set (dict_get_or C p []) = {c \<in> ?K. parent_link spans c = Some p}"
    by (simp add: forest_def)
  from d have dl: "distinct (map fst (links spans))" by (simp add: kept_ids_def)
  with P have P': "map_of P = map_of (links spans)" by (simp add: map_of_rev_distinct)
  have ids: "node_id ` set recs = ?K" using record_ids[of P C D spans] recs
    by (metis set_map)
  have f: "\<And>r. r \<in> set recs \<Longrightarrow> children_ids r = dict_get_or C (node_id r) [] \<and>
      parent_node_id r = dict_get_or P (node_id r) None"
    using record_fields recs by blast
  have pk: "(\<exists>p. dict_get_or P c None = Some p \<and> p \<in> ?K) \<longleftrightarrow> (\<exists>p. parent_link spans c = Some p)" for c
    by (cases "map_of (links spans) c") (auto simp: dict_get_or_def P' parent_link_Some)
  have dist: "distinct (map node_id recs)"
    using record_ids[of P C D spans] recs d by simp
  have "all_children recs = with_known_parent recs"
  proof (rule set_eqI)
    fix c
    have "c \<in> all_children recs \<longleftrightarrow> (\<exists>r\<in>set recs. c \<in> set (children_ids r))"
      by (auto simp: all_children_def)
    also have "\<dots> \<longleftrightarrow> (\<exists>n\<in>?K. c \<in> set (dict_get_or C n []))"
    proof
      assume "\<exists>r\<in>set recs. c \<in> set (children_ids r)"
      then obtain r where r: "r \<in> set recs" "c \<in> set (children_ids r)" by blast
      from r(1) have "node_id r \<in> node_id ` set recs" by (rule imageI)
      with ids have "node_id r \<in> ?K" by simp
      with r f[OF r(1)] show "\<exists>n\<in>?K. c \<in> set (dict_get_or C n [])"
        by (intro bexI[of _ "node_id r"]) simp_all
    next
      assume "\<exists>n\<in>?K. c \<in> set (dict_get_or C n [])"
      then obtain n where n: "n \<in> ?K" "c \<in> set (dict_get_or C n [])" by blast
      from n(1) ids have "n \<in> node_id ` set recs" by simp
      then obtain r where r: "r \<in> set recs" "node_id r = n" by (auto simp: image_iff)
      with n f[OF r(1)] show "\<exists>r\<in>set recs. c \<in> set (children_ids r)"
        by (intro bexI[of _ r]) simp_all
    qed
    also have "\<dots> \<longleftrightarrow> c \<in> ?K \<and> (\<exists>p. parent_link spans c = Some p)"
      unfolding ch by (auto simp: parent_link_Some)
    also have "\<dots> \<longleftrightarrow> c \<in> ?K \<and> (\<exists>p. dict_get_or P c None = Some p \<and> p \<in> ?K)"
      by (simp add: pk)
    also have "\<dots> \<longleftrightarrow> (\<exists>r\<in>set recs. node_id r = c \<and>
        (\<exists>p. parent_node_id r = Some p \<and> p \<in> ?K))"
    proof
      assume a: "c \<in> ?K \<and> (\<exists>p. dict_get_or P c None = Some p \<and> p \<in> ?K)"
      with ids have "c \<in> node_id ` set recs" by simp
      then obtain r where r: "r \<in> set recs" "node_id r = c" by (auto simp: image_iff)
      with a f[OF r(1)] show "\<exists>r\<in>set recs. node_id r = c \<and>
        (\<exists>p. parent_node_id r = Some p \<and> p \<in> ?K)"
        by (intro bexI[of _ r]) simp_all
    next
      assume "\<exists>r\<in>set recs. node_id r = c \<and> (\<exists>p. parent_node_id r = Some p \<and> p \<in> ?K)"
      then obtain r where r: "r \<in> set recs" "node_id r = c"
        "\<exists>p. parent_node_id r = Some p \<and> p \<in> ?K" by blast
      from r(1,2) have "c \<in> node_id ` set recs" by (auto simp: image_iff)
      with ids have "c \<in> ?K" by simp
      with r f[OF r(1)] show "c \<in> ?K \<and> (\<exists>p. dict_get_or P c None = Some p \<and> p \<in> ?K)"
        by auto
    qed
    also have "\<dots> \<longleftrightarrow> c \<in> with_known_parent recs"
      unfolding with_known_parent_iff ids ..
    finally show "c \<in> all_children recs \<longleftrightarrow> c \<in> with_known_parent recs" .
  qed
  with inv dist show ?thesis by (intro conjI)
qed

text \<open>
  The theorem at the example's three spans.
\<close>

theorem children_invert_parents_witness:
  "distinct (kept_ids example_spans)
   \<and> build_span_records example_spans \<noteq> None
   \<and> all_children (records_of example_spans) = with_known_parent (records_of example_spans)
   \<and> all_children (records_of example_spans) = {''A:1'', ''B:0''}
   \<and> map children_ids (records_of example_spans)
       = map (\<lambda>r. inverted_parents (records_of example_spans) (node_id r))
           (records_of example_spans)
   \<and> map children_ids (records_of example_spans) = [[''A:1''], [''B:0''], []]"
proof -
  have d: "distinct (kept_ids example_spans)" by (simp add: example_ids)
  obtain recs ts where
    b: "build_span_records example_spans = Some ((recs, [''A:0'']), ts)"
    and v: "map record_view recs = [(''A:0'', None, 0, [''A:1'']),
        (''A:1'', Some ''A:0'', 1, [''B:0'']), (''B:0'', Some ''A:1'', 2, [])]"
    and r: "records_of example_spans = recs"
    by (rule build_view_SomeE[OF example_view])
  have "map children_ids recs = map (\<lambda>x. snd (snd (snd x))) (map record_view recs)"
    by (simp add: record_view_def comp_def)
  then have m: "map children_ids recs = [[''A:1''], [''B:0''], []]" by (simp add: v)
  then have c: "all_children recs = {''A:1'', ''B:0''}" by (simp add: all_children_def)
  note t = children_invert_parents[OF d b]
  from t have i: "map children_ids recs = map (\<lambda>r. inverted_parents recs (node_id r)) recs"
    by simp
  from t have u: "all_children recs = with_known_parent recs" by (rule conjunct1)
  from b have n: "build_span_records example_spans \<noteq> None" by simp
  from d n u c i m show ?thesis unfolding r by (intro conjI)
qed

text \<open>
  C6 as stated fails: in \<open>dup_spans\<close> the first span with the identifier \<^verbatim>\<open>A:1\<close> makes it a
  child of \<^verbatim>\<open>A:0\<close>, and the second one overwrites its parent with none; \<^verbatim>\<open>A:1\<close> is among
  the children, and no record has a known parent.
\<close>

theorem dup_spans_children_mismatch:
  "build_view dup_spans =
     Some ([(''A:0'', None, 0, [''A:1'']), (''A:1'', None, 1, []), (''A:1'', None, 1, [])],
           [''A:0'', ''A:1''])
   \<and> all_children (records_of dup_spans) = {''A:1''}
   \<and> with_known_parent (records_of dup_spans) = {}"
proof -
  obtain recs ts where
    b: "build_span_records dup_spans = Some ((recs, [''A:0'', ''A:1'']), ts)"
    and v: "map record_view recs =
        [(''A:0'', None, 0, [''A:1'']), (''A:1'', None, 1, []), (''A:1'', None, 1, [])]"
    and r: "records_of dup_spans = recs"
    by (rule build_view_SomeE[OF dup_view])
  have c: "map children_ids recs = map (\<lambda>x. snd (snd (snd x))) (map record_view recs)"
    and p: "map parent_node_id recs = map (\<lambda>x. fst (snd x)) (map record_view recs)"
    by (simp_all add: record_view_def comp_def)
  from c v have 1: "all_children recs = {''A:1''}"
    by (simp add: all_children_def)
  from p v have "list_all (\<lambda>r. parent_node_id r = None) recs"
    by (simp add: list_all_iff) (metis list.set_map imageI insertE list.simps(15) empty_iff empty_set)
  then have "filter (\<lambda>r. case parent_node_id r of None \<Rightarrow> False
      | Some p \<Rightarrow> p \<in> set (map node_id recs)) recs = []"
    by (simp add: list_all_iff filter_empty_conv)
  then have 2: "with_known_parent recs = {}" by (simp add: with_known_parent_def)
  from 1 2 r dup_view show ?thesis by simp
qed

section \<open>Lemmas on the call on the heap\<close>

lemma stamped_idem: "stamped (stamped d) = stamped d"
  by (simp add: stamped_def)

lemma normalise_span_h_heap:
  "fst (normalise_span_h a (h, N, C)) = h\<lparr>span_at := (span_at h)(a := stamped (span_at h a))\<rparr>"
  by (simp add: normalise_span_h_def stamped_def Let_def)

lemma stage1_heap:
  "fst (fold normalise_span_h spans (h, N, C)) =
     h\<lparr>span_at := (\<lambda>a. if a \<in> set spans then stamped (span_at h a) else span_at h a)\<rparr>"
proof (induction spans arbitrary: h N C)
  case Nil
  show ?case by simp
next
  case (Cons a spans)
  let ?h = "h\<lparr>span_at := (span_at h)(a := stamped (span_at h a))\<rparr>"
  obtain N' C' where s: "normalise_span_h a (h, N, C) = (?h, N', C')"
    using normalise_span_h_heap[of a h N C]
    by (cases "normalise_span_h a (h, N, C)") auto
  have "(\<lambda>b. if b \<in> set spans then stamped (span_at ?h b) else span_at ?h b)
      = (\<lambda>b. if b \<in> set (a # spans) then stamped (span_at h b) else span_at h b)"
    by (rule ext) (simp add: stamped_idem)
  with Cons.IH[of ?h N' C'] s show ?case by simp
qed

lemma items_frame:
  "\<forall>l<n. list_at h' l = list_at h l \<Longrightarrow> \<forall>l\<in>set_option x. l < n \<Longrightarrow> items h' x = items h x"
  by (cases x) (simp_all add: items_def)

lemma load_frame:
  assumes "span_at h' = span_at h" "tag_at h' = tag_at h" "log_at h' = log_at h"
    "ref_at h' = ref_at h" "\<forall>l<n. list_at h' l = list_at h l"
    "\<forall>l\<in>lists_of (span_at h a). l < n"
  shows "load h' a = load h a"
proof -
  from assms(6) have "\<forall>l\<in>set_option (d_tags (span_at h a)). l < n"
    "\<forall>l\<in>set_option (d_logs (span_at h a)). l < n"
    "\<forall>l\<in>set_option (d_refs (span_at h a)). l < n"
    by (simp_all add: lists_of_def)
  with assms(5) have "items h' (d_tags (span_at h a)) = items h (d_tags (span_at h a))"
    "items h' (d_logs (span_at h a)) = items h (d_logs (span_at h a))"
    "items h' (d_refs (span_at h a)) = items h (d_refs (span_at h a))"
    by (simp_all add: items_frame)
  with assms(1-4) show ?thesis by (simp add: load_def Let_def)
qed

lemma make_record_h_dropped:
  "\<not> truthy (d_node_id (span_at h a)) \<Longrightarrow> make_record_h P C D a h = (None, h)"
  by (simp add: make_record_h_def Let_def)

lemma make_record_h_kept:
  assumes t: "truthy (d_node_id (span_at h a))"
    and al: "\<forall>l\<in>lists_of (span_at h a). l < next_free h"
  shows "\<exists>r h1. make_record_h P C D a h = (Some r, h1)
     \<and> list_addrs r = [next_free h, next_free h + 1, next_free h + 2]
     \<and> d_node_id (span_at h a) = Some (ro_node_id r)
     \<and> h1 = h\<lparr>list_at := (list_at h)
            (next_free h := items h (d_tags (span_at h a)),
             next_free h + 1 := items h (d_logs (span_at h a)),
             next_free h + 2 := items h (d_refs (span_at h a))),
          next_free := next_free h + 3\<rparr>
     \<and> make_record P C D (load h a) = Some (load_record h1 r)"
proof -
  let ?d = "span_at h a"
  let ?n = "next_free h"
  from al have b: "\<forall>l\<in>set_option (d_tags ?d). l < ?n" "\<forall>l\<in>set_option (d_logs ?d). l < ?n"
    "\<forall>l\<in>set_option (d_refs ?d). l < ?n"
    by (simp_all add: lists_of_def)
  let ?h1 = "h\<lparr>list_at := (list_at h)(?n := items h (d_tags ?d)), next_free := Suc ?n\<rparr>"
  let ?h2 = "?h1\<lparr>list_at := (list_at ?h1)(Suc ?n := items h (d_logs ?d)), next_free := Suc (Suc ?n)\<rparr>"
  have i1: "items ?h1 (d_logs ?d) = items h (d_logs ?d)"
    using b(2) by (intro items_frame[where n = ?n]) simp_all
  have i2: "items ?h2 (d_refs ?d) = items h (d_refs ?d)"
    using b(3) by (intro items_frame[where n = ?n]) simp_all
  from t obtain n where n: "d_node_id ?d = Some n" by (cases "d_node_id ?d") (simp_all add: truthy_def)
  show ?thesis
    using t n i1 i2
    by (simp add: make_record_h_def Let_def new_list_def list_addrs_def make_record_def
        load_def load_record_def)
qed

lemma allocated_Cons:
  "allocated h (a # spans) \<longleftrightarrow> (\<forall>l\<in>lists_of (span_at h a). l < next_free h) \<and> allocated h spans"
  by (simp add: allocated_def)

lemma copied_mono:
  assumes "copied h1 h' r b" "next_free h \<le> next_free h1"
  shows "copied h h' r b"
  using assms by (auto simp: copied_def list_all_iff)

lemma records_h_sem:
  assumes "records_h P C D spans h = (recs, h')"
    and "allocated h spans"
  shows "span_at h' = span_at h \<and> tag_at h' = tag_at h \<and> log_at h' = log_at h
     \<and> ref_at h' = ref_at h
     \<and> next_free h \<le> next_free h'
     \<and> (\<forall>l<next_free h. list_at h' l = list_at h l)
     \<and> list_all2 (copied h h') recs (filter (\<lambda>a. truthy (d_node_id (span_at h a))) spans)
     \<and> (\<forall>x\<in>set (concat (map list_addrs recs)). next_free h \<le> x \<and> x < next_free h')
     \<and> distinct (concat (map list_addrs recs))
     \<and> map (load_record h') recs = List.map_filter (make_record P C D) (map (load h) spans)"
  using assms
proof (induction spans arbitrary: h recs h')
  case Nil
  then show ?case by (simp add: List.map_filter_def)
next
  case (Cons a spans)
  from Cons.prems(2) have ala: "\<forall>l\<in>lists_of (span_at h a). l < next_free h"
    and als: "allocated h spans" by (simp_all add: allocated_Cons)
  show ?case
  proof (cases "truthy (d_node_id (span_at h a))")
    case False
    with Cons.prems(1) have r: "records_h P C D spans h = (recs, h')"
      by (simp add: make_record_h_dropped)
    from False have m: "make_record P C D (load h a) = None"
      by (simp add: make_record_def load_def Let_def)
    from Cons.IH[OF r als] False m show ?thesis by (simp add: List.map_filter_def)
  next
    case True
    let ?n = "next_free h"
    from make_record_h_kept[OF True ala, of P C D] obtain r h1 where
      mk: "make_record_h P C D a h = (Some r, h1)"
      and la: "list_addrs r = [?n, ?n + 1, ?n + 2]"
      and id: "d_node_id (span_at h a) = Some (ro_node_id r)"
      and h1: "h1 = h\<lparr>list_at := (list_at h)
            (?n := items h (d_tags (span_at h a)),
             ?n + 1 := items h (d_logs (span_at h a)),
             ?n + 2 := items h (d_refs (span_at h a))),
          next_free := ?n + 3\<rparr>"
      and mr: "make_record P C D (load h a) = Some (load_record h1 r)"
      by blast
    obtain recs' where rs: "records_h P C D spans h1 = (recs', h')" and recs: "recs = r # recs'"
      using Cons.prems(1) mk by (auto split: prod.splits)
    have f1: "span_at h1 = span_at h" "tag_at h1 = tag_at h" "log_at h1 = log_at h"
      "ref_at h1 = ref_at h" "next_free h1 = ?n + 3" by (simp_all add: h1)
    have l1: "\<forall>l<?n. list_at h1 l = list_at h l" by (simp add: h1)
    have als1: "allocated h1 spans"
      unfolding allocated_def
    proof (intro ballI)
      fix b l assume "b \<in> set spans" "l \<in> lists_of (span_at h1 b)"
      with als have "l < ?n" by (simp add: allocated_def f1)
      then show "l < next_free h1" by (simp add: f1)
    qed
    note ih = Cons.IH[OF rs als1]
    from ih have g1: "span_at h' = span_at h" "tag_at h' = tag_at h" "log_at h' = log_at h"
      "ref_at h' = ref_at h" by (simp_all add: f1)
    from ih f1 have g2: "?n + 3 \<le> next_free h'" by simp
    from ih f1 have l2: "\<forall>l<?n + 3. list_at h' l = list_at h1 l" by simp
    with l1 have g3: "\<forall>l<?n. list_at h' l = list_at h l" by simp
    from ala have b: "\<forall>l\<in>set_option (d_tags (span_at h a)). l < ?n"
      "\<forall>l\<in>set_option (d_logs (span_at h a)). l < ?n"
      "\<forall>l\<in>set_option (d_refs (span_at h a)). l < ?n"
      by (simp_all add: lists_of_def)
    have it: "items h' (d_tags (span_at h a)) = items h (d_tags (span_at h a))"
      "items h' (d_logs (span_at h a)) = items h (d_logs (span_at h a))"
      "items h' (d_refs (span_at h a)) = items h (d_refs (span_at h a))"
      using g3 b by (simp_all add: items_frame)
    from la have ra: "ro_tags r = ?n" "ro_logs r = ?n + 1" "ro_refs r = ?n + 2"
      by (simp_all add: list_addrs_def)
    have c0: "copied h h' r a"
      using l2 by (simp add: copied_def g1 id la ra it h1)
    from ih have "list_all2 (copied h1 h') recs'
        (filter (\<lambda>a. truthy (d_node_id (span_at h1 a))) spans)" by simp
    then have "list_all2 (copied h h') recs'
        (filter (\<lambda>a. truthy (d_node_id (span_at h a))) spans)"
      unfolding f1
      by (rule list_all2_mono) (simp add: copied_mono f1)
    with c0 True have g4: "list_all2 (copied h h') recs
        (filter (\<lambda>a. truthy (d_node_id (span_at h a))) (a # spans))"
      by (simp add: recs)
    from ih f1 have bd: "\<forall>x\<in>set (concat (map list_addrs recs')). ?n + 3 \<le> x \<and> x < next_free h'"
      by simp
    then have bd': "\<And>x. x \<in> set (concat (map list_addrs recs')) \<Longrightarrow> ?n + 3 \<le> x \<and> x < next_free h'"
      by blast
    have g5: "\<forall>x\<in>set (concat (map list_addrs recs)). ?n \<le> x \<and> x < next_free h'"
    proof
      fix x assume "x \<in> set (concat (map list_addrs recs))"
      then have "x \<in> {?n, ?n + 1, ?n + 2} \<or> x \<in> set (concat (map list_addrs recs'))"
        by (auto simp: recs la)
      with g2 bd' show "?n \<le> x \<and> x < next_free h'" by fastforce
    qed
    from ih have "distinct (concat (map list_addrs recs'))" by simp
    moreover have "set (list_addrs r) \<inter> set (concat (map list_addrs recs')) = {}"
      using bd' by (fastforce simp: la)
    ultimately have g6: "distinct (concat (map list_addrs recs))"
      by (simp add: recs la)
    have lr: "load_record h' r = load_record h1 r"
      using l2 by (simp add: load_record_def ra g1 f1)
    have "map (load h1) spans = map (load h) spans"
    proof (rule map_cong[OF refl])
      fix b assume "b \<in> set spans"
      with als have "\<forall>l\<in>lists_of (span_at h b). l < ?n" by (simp add: allocated_def)
      from load_frame[OF f1(1-4) l1 this] show "load h1 b = load h b" .
    qed
    with ih have "map (load_record h') recs' = List.map_filter (make_record P C D) (map (load h) spans)"
      by simp
    with mr lr have g7: "map (load_record h') recs
        = List.map_filter (make_record P C D) (map (load h) (a # spans))"
      by (simp add: recs List.map_filter_def)
    from g1 g2 g3 g4 g5 g6 g7 show ?thesis by simp
  qed
qed

lemma dict_contains_keys: "dict_contains d k \<longleftrightarrow> k \<in> set (map fst d)"
  by (simp add: dict_contains_def map_of_eq_None_iff)

lemma keys_dict_set_list:
  "map fst (dict_set N k v) = (if k \<in> set (map fst N) then map fst N else map fst N @ [k])"
  by (simp add: dict_set_def update_keys)

lemma find_roots_keys:
  assumes "map fst Nh = map fst Nv"
  shows "find_roots_h P Nh = find_roots P Nv"
proof -
  from assms have "dict_contains Nh = dict_contains Nv"
    by (intro ext) (simp add: dict_contains_keys)
  then show ?thesis by (simp add: find_roots_h_def find_roots_def cong: option.case_cong)
qed

lemma items_span_upd: "items (h\<lparr>span_at := f\<rparr>) x = items h x"
  by (cases x) (simp_all add: items_def)

lemma raw_load_stamp:
  "raw (load (h\<lparr>span_at := (span_at h)(a := stamped (span_at h a))\<rparr>) b) = raw (load h b)"
  by (simp add: load_def Let_def stamped_def items_span_upd)

lemma stage1_dicts:
  assumes "map fst Nh = map fst Nv"
  shows "\<exists>h1 Nh1 Nv1 C1 ts.
      fold normalise_span_h spans (h, Nh, C) = (h1, Nh1, C1)
      \<and> normalise (map (\<lambda>a. \<lparr>raw = raw (load h a), node_id_key = None\<rparr>) spans) (Nv, C)
          = (ts, Nv1, C1)
      \<and> map fst Nh1 = map fst Nv1"
  using assms
proof (induction spans arbitrary: h Nh Nv C)
  case Nil
  then show ?case by simp
next
  case (Cons a spans)
  let ?d = "span_at h a"
  let ?h = "h\<lparr>span_at := (span_at h)(a := stamped ?d)\<rparr>"
  let ?sp = "\<lparr>raw = raw (load h a), node_id_key = None\<rparr>"
  have same: "map (\<lambda>b. \<lparr>raw = raw (load ?h b), node_id_key = None\<rparr>) spans
      = map (\<lambda>b. \<lparr>raw = raw (load h b), node_id_key = None\<rparr>) spans"
    by (simp only: raw_load_stamp)
  show ?case
  proof (cases "d_segmentId ?d = None \<or> d_spanId ?d = None")
    case True
    then have s1: "normalise_span_h a (h, Nh, C) = (h, Nh, C)"
      by (simp add: normalise_span_h_def Let_def)
    from True have s2: "normalise_span ?sp (Nv, C) = (?sp, Nv, C)"
      by (simp add: normalise_span_def load_def Let_def)
    from Cons.IH[OF Cons.prems, of h C] obtain h1 Nh1 Nv1 C1 ts where
      ih: "fold normalise_span_h spans (h, Nh, C) = (h1, Nh1, C1)"
        "normalise (map (\<lambda>a. \<lparr>raw = raw (load h a), node_id_key = None\<rparr>) spans) (Nv, C)
          = (ts, Nv1, C1)"
        "map fst Nh1 = map fst Nv1"
      by blast
    from s1 s2 ih show ?thesis by simp
  next
    case False
    let ?id = "make_node_id (d_segmentId ?d) (d_spanId ?d)"
    let ?sp' = "\<lparr>raw = raw (load h a), node_id_key = Some ?id\<rparr>"
    from False have st: "stamped ?d = ?d\<lparr>d_node_id := Some ?id\<rparr>" by (auto simp: stamped_def)
    from False have s1: "normalise_span_h a (h, Nh, C)
        = (?h, dict_set Nh ?id a, dict_setdefault C ?id [])"
      by (auto simp: normalise_span_h_def Let_def st)
    from False have s2: "normalise_span ?sp (Nv, C)
        = (?sp', dict_set Nv ?id ?sp', dict_setdefault C ?id [])"
      by (auto simp: normalise_span_def load_def Let_def)
    from Cons.prems have k: "map fst (dict_set Nh ?id a) = map fst (dict_set Nv ?id ?sp')"
      by (simp add: keys_dict_set_list)
    from Cons.IH[OF k, of ?h "dict_setdefault C ?id []"] obtain h1 Nh1 Nv1 C1 ts where
      ih: "fold normalise_span_h spans (?h, dict_set Nh ?id a, dict_setdefault C ?id [])
          = (h1, Nh1, C1)"
        "normalise (map (\<lambda>b. \<lparr>raw = raw (load ?h b), node_id_key = None\<rparr>) spans)
           (dict_set Nv ?id ?sp', dict_setdefault C ?id []) = (ts, Nv1, C1)"
        "map fst Nh1 = map fst Nv1"
      by blast
    from ih(2) have ih2: "normalise (map (\<lambda>b. \<lparr>raw = raw (load h b), node_id_key = None\<rparr>) spans)
           (dict_set Nv ?id ?sp', dict_setdefault C ?id []) = (ts, Nv1, C1)"
      by (simp only: same)
    from s1 s2 ih(1) ih2 ih(3) show ?thesis by simp
  qed
qed

lemma lists_of_stamped: "lists_of (stamped d) = lists_of d"
  by (simp add: lists_of_def stamped_def)

lemma load_stage1:
  assumes "d_node_id (span_at h a) = None"
  shows "load (h\<lparr>span_at := (\<lambda>a. if a \<in> set spans then stamped (span_at h a) else span_at h a)\<rparr>) a
       = (if a \<in> set spans then tag (raw (load h a)) else load h a)"
  using assms
  by (simp add: load_def Let_def tag_def node_id_of_def stamped_def items_span_upd)

lemma build_h_parts:
  assumes "build_h h spans = Some (h', recs, roots)"
  obtains Nh C0 P C D where
    "fold normalise_span_h spans (h, [], []) = (after_stage1 h spans, Nh, C0)"
    "fold (\<lambda>span. link_span (load (after_stage1 h spans) span)) spans ([], C0) = (P, C)"
    "roots = find_roots_h P Nh"
    "bfs_loop C (map (\<lambda>n. (n, 0)) roots, []) = Some D"
    "records_h P C D spans (after_stage1 h spans) = (recs, h')"
proof -
  obtain h1 Nh C0 where s1: "fold normalise_span_h spans (h, [], []) = (h1, Nh, C0)"
    by (metis prod_cases3)
  then have h1: "h1 = after_stage1 h spans" by (simp add: after_stage1_def)
  obtain P C where s2: "fold (\<lambda>span. link_span (load h1 span)) spans ([], C0) = (P, C)"
    by (metis surj_pair)
  from assms s1 s2 obtain D where
    s3: "bfs_loop C (map (\<lambda>n. (n, 0)) (find_roots_h P Nh), []) = Some D"
    by (auto simp: build_h_def Let_def split: option.splits)
  from assms s1 s2 s3 have "records_h P C D spans h1 = (recs, h')" "roots = find_roots_h P Nh"
    by (auto simp: build_h_def Let_def split: prod.splits)
  with s1 s2 s3 h1 that show ?thesis by simp
qed

lemma tagged_heap_build:
  "\<exists>h' r. build_h tagged_heap [0] = Some (h', [r], [''A:0''])
     \<and> ro_tags r = 3
     \<and> list_at h' 3 = [2]
     \<and> d_tags (span_at h' 0) = Some 1
     \<and> list_at h' 1 = [2]
     \<and> d_node_id (span_at h' 0) = Some ''A:0''"
  by (simp add: build_h_def tagged_heap_def blank_dict_def normalise_span_h_def load_def
      items_def find_roots_h_def make_record_h_def new_list_def eval_defs bfs_loop.simps)

section \<open>What the call writes, and what its records share with its input\<close>

text \<open>
  C9, as amended. Let the lists of the span dictionaries passed be allocated, and let
  the call return. Stage 1 is the only stage that writes into a span dictionary: the
  dictionaries after the call are the ones after stage 1, and each is the dictionary
  before the call, with the node identifier under \<^verbatim>\<open>_node_id\<close> when the span is kept; no
  other entry of a dictionary passed, no other span dictionary, no list that was in use
  and no tag, log or reference dictionary is changed. The call returns one record per
  span that carries a node identifier, in the order of the spans; the tag, log and
  reference lists of the records are new list objects, no two of them the same, and each
  holds the very dictionaries of the span's list: the copies are shallow. For spans that
  come without the key \<^verbatim>\<open>_node_id\<close>, the records and the root list, read through the
  references, are those of \<open>build_span_records\<close> on the spans read before the call, and
  the span dictionaries after the call are the ones it leaves.
\<close>

theorem build_heap_effects:
  assumes al: "allocated h spans"
    and b: "build_h h spans = Some (h', recs, roots)"
  shows "span_at h' = span_at (after_stage1 h spans)
     \<and> (\<forall>a. span_at h' a = (if a \<in> set spans then stamped (span_at h a) else span_at h a))
     \<and> tag_at h' = tag_at h \<and> log_at h' = log_at h \<and> ref_at h' = ref_at h
     \<and> (\<forall>l<next_free h. list_at h' l = list_at h l)
     \<and> list_all2 (copied h h') recs (filter (\<lambda>a. truthy (d_node_id (span_at h' a))) spans)
     \<and> distinct (concat (map list_addrs recs))
     \<and> ((\<forall>a\<in>set spans. d_node_id (span_at h a) = None) \<longrightarrow>
          build_span_records (map (\<lambda>a. raw (load h a)) spans)
            = Some ((map (load_record h') recs, roots), map (load h') spans))"
proof -
  let ?h1 = "after_stage1 h spans"
  let ?vs = "map (\<lambda>a. raw (load h a)) spans"
  obtain Nh C0 P C D where
    s1: "fold normalise_span_h spans (h, [], []) = (?h1, Nh, C0)"
    and s2: "fold (\<lambda>span. link_span (load ?h1 span)) spans ([], C0) = (P, C)"
    and rt: "roots = find_roots_h P Nh"
    and s3: "bfs_loop C (map (\<lambda>n. (n, 0)) roots, []) = Some D"
    and s4: "records_h P C D spans ?h1 = (recs, h')"
    by (rule build_h_parts[OF b])
  have h1: "?h1 = h\<lparr>span_at := (\<lambda>a. if a \<in> set spans then stamped (span_at h a) else span_at h a)\<rparr>"
    unfolding after_stage1_def by (rule stage1_heap)
  have f1: "tag_at ?h1 = tag_at h" "log_at ?h1 = log_at h" "ref_at ?h1 = ref_at h"
    "list_at ?h1 = list_at h" "next_free ?h1 = next_free h"
    by (simp_all add: h1)
  have sp1: "\<And>a. span_at ?h1 a = (if a \<in> set spans then stamped (span_at h a) else span_at h a)"
    by (simp add: h1)
  have al1: "allocated ?h1 spans"
    using al by (simp add: allocated_def sp1 f1 lists_of_stamped)
  note r = records_h_sem[OF s4 al1]
  from r have g1: "span_at h' = span_at ?h1" by simp
  with sp1 have g2: "\<forall>a. span_at h' a = (if a \<in> set spans then stamped (span_at h a) else span_at h a)"
    by simp
  from r f1 have g3: "tag_at h' = tag_at h" "log_at h' = log_at h" "ref_at h' = ref_at h"
    by simp_all
  from r f1 have g4: "\<forall>l<next_free h. list_at h' l = list_at h l" by simp
  from r have "list_all2 (copied ?h1 h') recs (filter (\<lambda>a. truthy (d_node_id (span_at ?h1 a))) spans)"
    by simp
  then have g5: "list_all2 (copied h h') recs (filter (\<lambda>a. truthy (d_node_id (span_at h' a))) spans)"
    unfolding g1
    by (rule list_all2_mono) (simp add: copied_mono f1)
  from r have g6: "distinct (concat (map list_addrs recs))" by simp
  have g7: "build_span_records ?vs = Some ((map (load_record h') recs, roots), map (load h') spans)"
    if fresh: "\<forall>a\<in>set spans. d_node_id (span_at h a) = None"
  proof -
    from stage1_dicts[of "[]" "[]" spans h "[]"] s1 obtain Nv ts where
      n: "normalise (map (\<lambda>a. \<lparr>raw = raw (load h a), node_id_key = None\<rparr>) spans) ([], [])
          = (ts, Nv, C0)"
      and k: "map fst Nh = map fst Nv"
      by auto
    have n': "normalise (map (\<lambda>sp. \<lparr>raw = sp, node_id_key = None\<rparr>) ?vs) ([], []) = (ts, Nv, C0)"
      using n by (simp add: comp_def)
    from normalise_fresh[OF n'] have ts: "ts = map tag ?vs" by simp
    have l1: "map (load ?h1) spans = map tag ?vs"
    proof -
      have "load ?h1 a = tag (raw (load h a))" if "a \<in> set spans" for a
        using load_stage1[of h a spans] fresh that unfolding h1 by simp
      then show ?thesis by (simp add: comp_def)
    qed
    have "fold link_span (map (load ?h1) spans) ([], C0) = (P, C)"
      using s2 by (simp add: fold_map comp_def)
    then have l2: "fold link_span (map tag ?vs) ([], C0) = (P, C)" by (simp only: l1)
    from n' ts l2 have bm: "build_maps ?vs = (map tag ?vs, Nv, P, C)"
      by (simp add: build_maps_def)
    from k rt have rt': "roots = find_roots P Nv" by (simp add: find_roots_keys)
    from r have "map (load_record h') recs = List.map_filter (make_record P C D) (map (load ?h1) spans)"
      by simp
    then have rc: "map (load_record h') recs = List.map_filter (make_record P C D) (map tag ?vs)"
      by (simp only: l1)
    have "map (load h') spans = map (load ?h1) spans"
    proof (rule map_cong[OF refl])
      fix a assume "a \<in> set spans"
      with al1 have "\<forall>l\<in>lists_of (span_at ?h1 a). l < next_free ?h1" by (simp add: allocated_def)
      moreover from r have "span_at h' = span_at ?h1" "tag_at h' = tag_at ?h1"
        "log_at h' = log_at ?h1" "ref_at h' = ref_at ?h1"
        "\<forall>l<next_free ?h1. list_at h' l = list_at ?h1 l" by simp_all
      ultimately show "load h' a = load ?h1 a" by (intro load_frame[where n = "next_free ?h1"])
    qed
    then have fin: "map (load h') spans = map tag ?vs" by (simp only: l1)
    from bm s3 rt' rc fin show ?thesis
      by (simp add: build_span_records_def Let_def)
  qed
  from g1 g2 g3 g4 g5 g6 g7 show ?thesis by (intro conjI impI)
qed

text \<open>
  The theorem at the heap with one span dictionary and one tag dictionary.
\<close>

theorem build_heap_effects_witness:
  "allocated tagged_heap [0]
   \<and> d_node_id (span_at tagged_heap 0) = None
   \<and> (\<exists>h' r. build_h tagged_heap [0] = Some (h', [r], [''A:0''])
         \<and> span_at h' 0 = (span_at tagged_heap 0)\<lparr>d_node_id := Some ''A:0''\<rparr>
         \<and> span_at h' 1 = span_at tagged_heap 1
         \<and> list_at h' 1 = [2] \<and> tag_at h' 2 = http_tag
         \<and> copied tagged_heap h' r 0
         \<and> build_span_records [raw (load tagged_heap 0)]
             = Some (([load_record h' r], [''A:0'']), [load h' 0]))"
proof -
  have al: "allocated tagged_heap [0]"
    by (simp add: allocated_def lists_of_def tagged_heap_def blank_dict_def)
  have fr: "d_node_id (span_at tagged_heap 0) = None"
    by (simp add: tagged_heap_def blank_dict_def)
  from tagged_heap_build obtain h' r where
    b: "build_h tagged_heap [0] = Some (h', [r], [''A:0''])" by blast
  note t = build_heap_effects[OF al b]
  note sp = t[THEN conjunct2, THEN conjunct1]
  note tg = t[THEN conjunct2, THEN conjunct2, THEN conjunct1]
  note rest = t[THEN conjunct2, THEN conjunct2, THEN conjunct2, THEN conjunct2, THEN conjunct2]
  note ls = rest[THEN conjunct1]
  note cp = rest[THEN conjunct2, THEN conjunct1]
  note rf = rest[THEN conjunct2, THEN conjunct2, THEN conjunct2]
  have st: "stamped (span_at tagged_heap 0) = (span_at tagged_heap 0)\<lparr>d_node_id := Some ''A:0''\<rparr>"
    by (simp add: stamped_def tagged_heap_def blank_dict_def eval_defs)
  from sp[THEN spec, of 0] st
  have s0: "span_at h' 0 = (span_at tagged_heap 0)\<lparr>d_node_id := Some ''A:0''\<rparr>"
    by simp
  from sp[THEN spec, of 1] have s1: "span_at h' 1 = span_at tagged_heap 1" by simp
  from ls have l1: "list_at h' 1 = [2]" by (simp add: tagged_heap_def)
  from tg have t2: "tag_at h' 2 = http_tag" by (simp add: tagged_heap_def)
  from s0 have "truthy (d_node_id (span_at h' 0))" by (simp add: truthy_def)
  with cp have c: "copied tagged_heap h' r 0" by simp
  from rf fr have v: "build_span_records [raw (load tagged_heap 0)]
      = Some (([load_record h' r], [''A:0'']), [load h' 0])" by simp
  from b s0 s1 l1 t2 c v have "\<exists>h' r. build_h tagged_heap [0] = Some (h', [r], [''A:0''])
         \<and> span_at h' 0 = (span_at tagged_heap 0)\<lparr>d_node_id := Some ''A:0''\<rparr>
         \<and> span_at h' 1 = span_at tagged_heap 1
         \<and> list_at h' 1 = [2] \<and> tag_at h' 2 = http_tag
         \<and> copied tagged_heap h' r 0
         \<and> build_span_records [raw (load tagged_heap 0)]
             = Some (([load_record h' r], [''A:0'']), [load h' 0])"
    by (intro exI[of _ h'] exI[of _ r] conjI)
  with al fr show ?thesis by (intro conjI)
qed

text \<open>
  C9 as stated fails where it calls the structure independent of its input. After the
  call on that heap, the tag list of the record (object 3) is not the tag list of the
  span (object 1), and both hold the tag dictionary at address 2: a write into that
  dictionary is seen through the record and through the span.
\<close>

theorem record_shares_tag_dict:
  "\<exists>h' r. build_h tagged_heap [0] = Some (h', [r], [''A:0''])
     \<and> d_tags (span_at h' 0) = Some 1 \<and> ro_tags r = 3
     \<and> list_at h' 1 = [2] \<and> list_at h' 3 = [2]
     \<and> rec_tags (load_record (h'\<lparr>tag_at := (tag_at h')(2 := post_tag)\<rparr>) r) = [post_tag]
     \<and> tags (raw (load h' 0)) = [http_tag]
     \<and> tags (raw (load (h'\<lparr>tag_at := (tag_at h')(2 := post_tag)\<rparr>) 0)) = [post_tag]"
  by (simp add: build_h_def tagged_heap_def blank_dict_def normalise_span_h_def load_def
      load_record_def items_def find_roots_h_def make_record_h_def new_list_def eval_defs
      bfs_loop.simps)

section \<open>Lemmas on discovery and on the loop over the fetches\<close>

lemmas fetch_defs = fetch_trace_summaries_def fetch_pages.simps page_pass_def three_backend_def
  mk_entry_def slice_to_def Let_def

lemma three_discovered:
  "fetch_trace_summaries three_backend 0 200 = Some (Inr (three_summaries, 3))"
  by (simp add: fetch_defs three_summaries_def mk_summary_def)

lemma add_entries_seen_inv: "seen_inv st \<Longrightarrow> seen_inv (add_entries limit es st)"
proof (induction es arbitrary: st)
  case Nil
  then show ?case by simp
next
  case (Cons e es)
  obtain xs seen where st: "st = (xs, seen)" by (cases st)
  show ?case
  proof (cases "e_trace_ids e = [] \<or> hd (e_trace_ids e) \<in> seen")
    case True
    with Cons st show ?thesis by (auto simp: Let_def)
  next
    case False
    let ?x = "\<lparr>ts_trace_id = hd (e_trace_ids e),
        ts_duration_ms = (case e_duration e of None \<Rightarrow> 0 | Some d \<Rightarrow> d),
        ts_start_ms = (case e_start e of None \<Rightarrow> 0 | Some t \<Rightarrow> t),
        ts_is_error = (case e_is_error e of None \<Rightarrow> False | Some b \<Rightarrow> b),
        ts_endpoint_names = e_endpoint_names e\<rparr>"
    let ?st' = "(xs @ [?x], insert (hd (e_trace_ids e)) seen)"
    from Cons.prems st False have i: "seen_inv ?st'" by (auto simp: seen_inv_def)
    from False st have "add_entries limit (e # es) st =
        (if limit \<noteq> 0 \<and> limit \<le> int (length (xs @ [?x])) then ?st'
         else add_entries limit es ?st')"
      by (simp add: Let_def)
    with i Cons.IH[OF i] show ?thesis by simp
  qed
qed

lemma fetch_pages_distinct:
  assumes "fetch_pages post limit page_size st = Some res"
  shows "seen_inv (fst st, fst (snd st)) \<longrightarrow>
         (case res of Inl err \<Rightarrow> True | Inr r \<Rightarrow> distinct (map ts_trace_id (fst r)))"
  using assms
proof (rule fetch_pages.raw_induct[rotated,
    where P="\<lambda>post limit page_size st res. seen_inv (fst st, fst (snd st)) \<longrightarrow>
         (case res of Inl err \<Rightarrow> True | Inr r \<Rightarrow> distinct (map ts_trace_id (fst r)))"],
    goal_cases)
  case (1 f post limit page_size st res)
  obtain xs seen tot page where st: "st = (xs, seen, tot, page)" by (cases st) auto
  show ?case
  proof
    assume i: "seen_inv (fst st, fst (snd st))"
    then have d: "distinct (map ts_trace_id xs)" by (simp add: st seen_inv_def)
    show "case res of Inl err \<Rightarrow> True | Inr r \<Rightarrow> distinct (map ts_trace_id (fst r))"
    proof (cases "page_pass post limit page_size st")
      case (Inl fin)
      with 1(2) have res: "res = fin" by simp
      have ae: "distinct (map ts_trace_id a)" if "add_entries l es (xs, seen) = (a, b)" for l es a b
        using add_entries_seen_inv[of "(xs, seen)" l es] i st that by (simp add: seen_inv_def)
      from Inl d show ?thesis unfolding res
        by (auto simp: page_pass_def st Let_def
            split: if_splits sum.splits option.splits prod.splits dest: ae)
    next
      case (Inr st')
      with 1(2) have r: "f post limit page_size st' = Some res" by simp
      obtain ys seen' tot' page' where st': "st' = (ys, seen', tot', page')" by (cases st') auto
      from Inr st st' obtain es where a: "add_entries limit es (xs, seen) = (ys, seen')"
        by (auto simp: page_pass_def Let_def split: if_splits sum.splits option.splits prod.splits)
      from add_entries_seen_inv[of "(xs, seen)" limit es] i st a
      have "seen_inv (fst st', fst (snd st'))" by (simp add: st')
      with 1(1)[OF r] show ?thesis by simp
    qed
  qed
qed

lemma fetch_trace_summaries_distinct:
  assumes "fetch_trace_summaries post limit page_size = Some (Inr (xs, t))"
  shows "distinct (map ts_trace_id xs) \<and> (0 < limit \<longrightarrow> int (length xs) \<le> limit)"
proof -
  let ?ps = "max 1 (min page_size (if limit > 0 then limit else page_size))"
  from assms obtain ys where
    p: "fetch_pages post limit ?ps ([], {}, 0, 1) = Some (Inr (ys, t))"
    and xs: "xs = (if limit \<noteq> 0 then slice_to ys limit else ys)"
    by (auto simp: fetch_trace_summaries_def Let_def split: option.splits sum.splits)
  from fetch_pages_distinct[OF p] have d: "distinct (map ts_trace_id ys)"
    by (simp add: seen_inv_def)
  have "distinct (map ts_trace_id xs)"
    using d by (simp add: xs slice_to_def take_map[symmetric])
  moreover have "0 < limit \<longrightarrow> int (length xs) \<le> limit"
    by (auto simp: xs slice_to_def)
  ultimately show ?thesis by simp
qed

lemma build_nothing_kept:
  assumes "kept_ids spans = []"
  shows "build_span_records spans = Some (([], []), map tag spans)"
proof -
  from assms have d: "distinct (kept_ids spans)" by simp
  from build_distinct[OF d] obtain N P C D where
    f: "forest (set (kept_ids spans)) (parent_link spans) C (find_roots P N)"
    and b: "build_span_records spans =
         Some ((List.map_filter (make_record P C D) (map tag spans), find_roots P N),
               map tag spans)"
    by blast
  from f assms have "set (find_roots P N) = {}" by (simp add: forest_def)
  then have r: "find_roots P N = []" by simp
  from record_ids[of P C D spans] assms
  have "List.map_filter (make_record P C D) (map tag spans) = []" by simp
  with b r show ?thesis by simp
qed

lemma build_records_empty_iff:
  assumes "build_span_records spans = Some ((recs, roots), ts)"
  shows "recs = [] \<longleftrightarrow> kept_ids spans = []"
proof -
  from build_result_shape[OF assms] obtain P C D where
    "recs = List.map_filter (make_record P C D) (map tag spans)" by blast
  with record_ids[of P C D spans] have "map node_id recs = kept_ids spans" by simp
  then show ?thesis by (metis map_is_Nil_conv)
qed







lemma collect_trace_list_failed:
  "fetch_trace_summaries post size' 200 = Some (Inl err) \<Longrightarrow>
   collect_traces self post fetch completed utc_iso now files size' hours min_duration_ms exp_name
     = Some (Inl TraceListFailed, files)"
  by (simp add: collect_traces_def)






section \<open>Discovery with a negative limit\<close>

text \<open>
  C7. The claim takes every limit of 0 or less as unbounded. For a negative limit the
  source does otherwise: \<^verbatim>\<open>if limit and len(summaries) >= limit\<close> holds before the first
  request, so the loop is left at once and the call returns no summary and the total 0,
  whatever the backend holds.
\<close>

theorem negative_limit_fetches_nothing:
  assumes "limit < 0"
  shows "fetch_trace_summaries post limit page_size = Some (Inr ([], 0))"
  using assms by (simp add: fetch_trace_summaries_def fetch_pages.simps page_pass_def slice_to_def)

text \<open>
  The theorem at the limit \<open>-1\<close> and a backend with three traces, of which the limit 0
  returns all three.
\<close>

theorem negative_limit_fetches_nothing_witness:
  "(- 1 :: int) < 0
   \<and> fetch_trace_summaries three_backend (- 1) 200 = Some (Inr ([], 0))
   \<and> fetch_view three_backend 0 200 = Some (Inr ([''t1'', ''t2'', ''t3''], 3))"
proof -
  have n: "(- 1 :: int) < 0" by simp
  have z: "fetch_view three_backend 0 200 = Some (Inr ([''t1'', ''t2'', ''t3''], 3))"
    by (simp add: fetch_view_def three_discovered three_summaries_def mk_summary_def)
  from negative_limit_fetches_nothing[OF n, of three_backend 200] n z show ?thesis by simp
qed

section \<open>Outcome of a collection run\<close>




section \<open>Serialised duration\<close>

text \<open>
  C10. For every span record, \<^verbatim>\<open>to_dict\<close> gives a \<^verbatim>\<open>duration_ms\<close> equal to
  \<open>max 0 (end_ms - start_ms)\<close>; so the serialised duration is never negative, also
  when the end time precedes the start time.
\<close>

theorem to_dict_duration:
  "o_duration_ms (to_dict utc_iso self) = max 0 (end_ms self - start_ms self)
   \<and> 0 \<le> o_duration_ms (to_dict utc_iso self)"
  by (simp add: to_dict_def Let_def)

end
